theory Spec2Isabelle
  imports Main "HOL-Library.Word"
begin

unbundle bit_operations_syntax

section \<open>The braille console driver (drivers/accessibility/braille/braille_console.c)\<close>

text \<open>
  The driver keeps one display-width line of terminal output, encodes it into an
  escaped, checksummed frame for a serial braille device, and lets the operator pan a
  window over the virtual console. Its global variables become one record that every
  function takes and returns; what it does to the outside world (sounds, transport
  writes, refreshes, notifier registrations) is appended to a trace. A function that
  indexes an array returns \<open>None\<close> where the C code would read or write outside
  the array.
\<close>

subsection \<open>Constants and data\<close>

type_synonym u8 = "8 word"
type_synonym u16 = "16 word"
type_synonym u32 = "32 word"

definition WIDTH :: nat where
  "WIDTH = 40"

text \<open>\<open>enum braille_ctrl\<close>\<close>

definition SOH :: u8 where "SOH = 1"
definition STX :: u8 where "STX = 2"
definition ETX :: u8 where "ETX = 3"
definition EOT :: u8 where "EOT = 4"
definition ENQ :: u8 where "ENQ = 5"

definition BEEP_HIGH :: nat where "BEEP_HIGH = 880"
definition BEEP_MED :: nat where "BEEP_MED = 440"
definition BEEP_LOW :: nat where "BEEP_LOW = 220"

text \<open>
  The key codes of \<open>linux/input.h\<close> that the driver switches on; the header gives them
  pairwise distinct numbers, every other code is \<open>KEY_OTHER\<close>.
\<close>

datatype key =
  KEY_INSERT | KEY_LEFT | KEY_RIGHT | KEY_DOWN | KEY_UP
  | KEY_HOME | KEY_PAGEUP | KEY_PAGEDOWN | KEY_OTHER nat

definition BRAILLE_KEY :: key where
  "BRAILLE_KEY = KEY_INSERT"

datatype notify = NOTIFY_OK | NOTIFY_STOP

datatype kbd_code =
  KBD_KEYCODE | KBD_UNBOUND_KEYCODE | KBD_UNICODE | KBD_KEYSYM | KBD_POST_KEYSYM

datatype vt_code = VT_ALLOCATE | VT_DEALLOCATE | VT_WRITE | VT_UPDATE | VT_PREWRITE

datatype errno = ENODEV | EINVAL | SETUP_FAILED int

text \<open>
  \<open>struct vc_data\<close> is declared in \<open>linux/console_struct.h\<close>. The driver reads the console
  number, the grid size (\<open>unsigned int vc_cols, vc_rows\<close>) and the cursor
  (\<open>unsigned int state.x, state.y\<close>). The console number is a small non-negative number
  that the code only compares with and assigns to \<open>int\<close> variables.
\<close>

record vc_data =
  vc_num :: int
  vc_cols :: u32
  vc_rows :: u32
  state_x :: u32
  state_y :: u32

text \<open>
  \<open>struct console\<close>: the fields the driver touches. \<open>flags\<close> is a bit set in C; here
  it is the set of the flags that are on, so \<open>flags |= CON_ENABLED\<close> inserts the flag.
  \<open>index\<close> is a \<open>short\<close>. \<open>setup_fn\<close> is the function pointer \<open>setup\<close>, which may be null;
  only its return value is known to the driver.
\<close>

datatype con_flag = CON_ENABLED | CON_OTHER nat

record console =
  flags :: "con_flag set"
  index :: "16 word"
  setup_fn :: "(string \<Rightarrow> int) option"

type_synonym co_ptr = nat

text \<open>What the driver does to its collaborators, in the order it does it.\<close>

datatype effect =
  Mksound nat
  | Maybe_cursor_moved int
  | Vc_refresh int
  | Write co_ptr "u8 list"
  | Setup co_ptr string
  | Register_keyboard_notifier
  | Register_vt_notifier
  | Unregister_keyboard_notifier
  | Unregister_vt_notifier

text \<open>
  The globals of the file, the static \<open>last_write_buf\<close> of \<open>braille_write\<close>, the
  \<open>struct console\<close> objects the pointers refer to, and the trace. The four viewport
  variables are 32-bit \<open>int\<close>s that the code mixes with \<open>unsigned int\<close> values: they are
  words, read as two's complement with \<open>sint\<close> where the code compares them as \<open>int\<close>,
  and their arithmetic wraps around (the kernel is built with \<open>-fno-strict-overflow\<close>).
\<close>

record state =
  sound :: bool
  console_buf :: "u16 list"
  console_cursor :: int
  vc_view_x :: u32
  vc_view_y :: u32
  lastvc_x :: u32
  lastvc_y :: u32
  console_show :: int
  console_newline :: int
  lastVC :: int
  braille_co :: "co_ptr option"
  last_write_buf :: "u16 list"
  consoles :: "co_ptr \<Rightarrow> console"
  trace :: "effect list"

text \<open>The initialisers of the globals; static storage without one is zero.\<close>

definition init_state :: "bool \<Rightarrow> (co_ptr \<Rightarrow> console) \<Rightarrow> state" where
  "init_state snd_on cs =
     \<lparr> sound = snd_on,
       console_buf = replicate WIDTH 0,
       console_cursor = 0,
       vc_view_x = 0, vc_view_y = 0, lastvc_x = 0, lastvc_y = 0,
       console_show = 1,
       console_newline = 1,
       lastVC = - 1,
       braille_co = None,
       last_write_buf = replicate WIDTH 0,
       consoles = cs,
       trace = [] \<rparr>"

definition emit :: "effect \<Rightarrow> state \<Rightarrow> state" where
  "emit e st = st\<lparr>trace := trace st @ [e]\<rparr>"

subsection \<open>Array accesses\<close>

text \<open>An index outside the array is a fault: the access returns \<open>None\<close>.\<close>

definition load :: "'a list \<Rightarrow> int \<Rightarrow> 'a option" where
  "load a i = (if 0 \<le> i \<and> i < int (length a) then Some (a ! nat i) else None)"

definition store :: "'a list \<Rightarrow> int \<Rightarrow> 'a \<Rightarrow> 'a list option" where
  "store a i v = (if 0 \<le> i \<and> i < int (length a) then Some (a[nat i := v]) else None)"

text \<open>
  \<open>memset\<close> over the whole array, \<open>memcmp\<close> and \<open>memcpy\<close> of the first \<open>n\<close> elements,
  and the \<open>memmove\<close> of \<open>n\<close> elements from index 1 to index 0.
\<close>

definition memset_all :: "'a list \<Rightarrow> 'a \<Rightarrow> 'a list" where
  "memset_all a v = replicate (length a) v"

definition memcmp_eq :: "'a list \<Rightarrow> 'a list \<Rightarrow> nat \<Rightarrow> bool" where
  "memcmp_eq a b n = (take n a = take n b)"

definition memcpy :: "'a list \<Rightarrow> 'a list \<Rightarrow> nat \<Rightarrow> 'a list" where
  "memcpy dst src n = take n src @ drop n dst"

definition memmove_down :: "'a list \<Rightarrow> nat \<Rightarrow> 'a list" where
  "memmove_down a n = take n (drop 1 a) @ drop n a"

subsection \<open>Helper functions\<close>

definition beep :: "nat \<Rightarrow> state \<Rightarrow> state" where
  "beep freq st = (if sound st then emit (Mksound freq) st else st)"

definition refresh_vc :: "vc_data \<Rightarrow> state \<Rightarrow> state" where
  "refresh_vc vc st = emit (Vc_refresh (vc_num vc)) (emit (Maybe_cursor_moved (vc_num vc)) st)"

text \<open>
  In \<open>vc->state.x % WIDTH\<close> the \<open>int\<close> constant is converted to \<open>unsigned int\<close>: the
  remainder and the subtraction are unsigned, and the assignments keep the bits.
\<close>

definition vc_follow_cursor :: "vc_data \<Rightarrow> state \<Rightarrow> state" where
  "vc_follow_cursor vc st =
     st\<lparr> vc_view_x := state_x vc - (state_x vc mod of_nat WIDTH),
         vc_view_y := state_y vc,
         lastvc_x := state_x vc,
         lastvc_y := state_y vc \<rparr>"

subsection \<open>The frame encoder\<close>

text \<open>
  One round of the loop of \<open>braille_write\<close> (lines 99 to 110) on the entry \<open>b = buf[i]\<close>:
  the state of the loop is the checksum, the output array and the offset of \<open>data_ptr\<close>
  in it.
\<close>

definition braille_put :: "u16 \<Rightarrow> u8 \<times> u8 list \<times> int \<Rightarrow> (u8 \<times> u8 list \<times> int) option" where
  "braille_put b s =
     (case s of (csum, data, data_ptr) \<Rightarrow>
        let char_val = (if b \<ge> 0x100 then 0x3F else if b = 0x00 then 0x20 else b);
            csum = csum XOR ucast char_val
        in if char_val \<le> 0x05 then
             (case store data data_ptr SOH of
                None \<Rightarrow> None
              | Some data \<Rightarrow>
                  (case store data (data_ptr + 1) (ucast (char_val OR 0x40)) of
                     None \<Rightarrow> None
                   | Some data \<Rightarrow> Some (csum, data, data_ptr + 2)))
           else
             (case store data data_ptr (ucast char_val) of
                None \<Rightarrow> None
              | Some data \<Rightarrow> Some (csum, data, data_ptr + 1)))"

function braille_loop :: "u16 list \<Rightarrow> nat \<Rightarrow> u8 \<times> u8 list \<times> int \<Rightarrow> (u8 \<times> u8 list \<times> int) option" where
  "braille_loop buf i s =
     (if i < WIDTH then
        (case load buf (int i) of
           None \<Rightarrow> None
         | Some b \<Rightarrow>
             (case braille_put b s of
                None \<Rightarrow> None
              | Some s' \<Rightarrow> braille_loop buf (Suc i) s'))
      else Some s)"
  by pat_completeness auto
termination
  by (relation "measure (\<lambda>(buf, i, s). WIDTH - i)") auto

declare braille_loop.simps [simp del]

text \<open>
  Lines 93 to 118: the frame is built in \<open>data\<close>, an array of \<open>2 * WIDTH + 5\<close> bytes
  whose contents at entry are \<open>data0\<close>. The result is the array and the final offset
  of \<open>data_ptr\<close>.
\<close>

definition braille_frame :: "u16 list \<Rightarrow> u8 list \<Rightarrow> (u8 list \<times> int) option" where
  "braille_frame buf data0 =
     (case store data0 0 STX of
        None \<Rightarrow> None
      | Some data \<Rightarrow>
      (case store data 1 0x3E of
        None \<Rightarrow> None
      | Some data \<Rightarrow>
      (case braille_loop buf 0 (0 XOR 0x3E, data, 2) of
        None \<Rightarrow> None
      | Some (csum, data, data_ptr) \<Rightarrow>
      (case (if csum \<le> 0x05 then
               (case store data data_ptr SOH of
                  None \<Rightarrow> None
                | Some data \<Rightarrow> Some (csum OR 0x40, data, data_ptr + 1))
             else Some (csum, data, data_ptr)) of
        None \<Rightarrow> None
      | Some (csum, data, data_ptr) \<Rightarrow>
      (case store data data_ptr csum of
        None \<Rightarrow> None
      | Some data \<Rightarrow>
      (case store data (data_ptr + 1) ETX of
        None \<Rightarrow> None
      | Some data \<Rightarrow> Some (data, data_ptr + 2)))))))"

text \<open>
  \<open>braille_write\<close>. Without a bound device it returns at once; a line equal to the one
  sent last is not sent again. The local array \<open>data\<close> is not initialised in C; it
  starts here as zeros, and \<open>braille_frame\<close> is shown below not to depend on it.
  The transport receives the first \<open>data_ptr - data\<close> bytes of the array.
\<close>

definition braille_write :: "u16 list \<Rightarrow> state \<Rightarrow> state option" where
  "braille_write buf st =
     (case braille_co st of
        None \<Rightarrow> Some st
      | Some co \<Rightarrow>
          if length buf < WIDTH \<or> length (last_write_buf st) < WIDTH then None
          else if memcmp_eq (last_write_buf st) buf WIDTH then Some st
          else
            (let st = st\<lparr>last_write_buf := memcpy (last_write_buf st) buf WIDTH\<rparr> in
             case braille_frame buf (replicate (1 + 1 + 2 * WIDTH + 2 + 1) 0) of
               None \<Rightarrow> None
             | Some (data, data_ptr) \<Rightarrow> Some (emit (Write co (take (nat data_ptr) data)) st)))"

subsection \<open>Keyboard handling\<close>

text \<open>
  \<open>struct keyboard_notifier_param\<close>: the console, whether the key went down, and the
  key. For the code \<open>KBD_POST_KEYSYM\<close> the handler derives \<open>on_off\<close> from the key symbol
  with the macros \<open>KTYP\<close>, \<open>KVAL\<close> and the function \<open>vt_get_leds\<close>, none of which this
  file defines: \<open>kp_on_off\<close> is the value it arrives at (\<open>-1\<close> for a key that is not a
  lock key).
\<close>

record keyboard_notifier_param =
  kp_vc :: vc_data
  kp_down :: int
  kp_value :: key
  kp_on_off :: int

definition handle_console_key :: "keyboard_notifier_param \<Rightarrow> vc_data \<Rightarrow> state \<Rightarrow> notify \<times> state" where
  "handle_console_key param vc st =
     (if kp_value param = BRAILLE_KEY then
        (let st = st\<lparr>console_show := 0\<rparr>;
             st = beep BEEP_HIGH st;
             st = vc_follow_cursor vc st;
             st = refresh_vc vc st
         in (NOTIFY_STOP, st))
      else (NOTIFY_OK, st))"

text \<open>
  The comparisons of \<open>vc_view_x\<close> and \<open>vc_view_y\<close> with constants are signed. In
  \<open>vc_view_x + WIDTH < vc->vc_cols\<close> and \<open>vc_view_y + 1 < vc->vc_rows\<close> the \<open>int\<close> sum is
  converted to \<open>unsigned int\<close>, so these are the unsigned comparisons of words; in
  \<open>vc->vc_cols - WIDTH\<close> and \<open>vc->vc_rows - 1\<close> the subtraction is unsigned.
\<close>

definition handle_vc_key :: "keyboard_notifier_param \<Rightarrow> vc_data \<Rightarrow> state \<Rightarrow> (notify \<times> state) option" where
  "handle_vc_key param vc st =
     (case
        (case kp_value param of
           KEY_INSERT \<Rightarrow>
             (let st = beep BEEP_MED st;
                  st = st\<lparr>console_show := 1\<rparr>;
                  st = st\<lparr>lastVC := - 1\<rparr>
              in map_option (Pair NOTIFY_STOP) (braille_write (console_buf st) st))
         | KEY_LEFT \<Rightarrow>
             Some (NOTIFY_STOP,
               if sint (vc_view_x st) > 0 then
                 (let st = st\<lparr>vc_view_x := vc_view_x st - of_nat WIDTH\<rparr>
                  in if sint (vc_view_x st) < 0 then st\<lparr>vc_view_x := 0\<rparr> else st)
               else if sint (vc_view_y st) \<ge> 1 then
                 (let st = beep BEEP_HIGH st;
                      st = st\<lparr>vc_view_y := vc_view_y st - 1\<rparr>
                  in st\<lparr>vc_view_x := vc_cols vc - of_nat WIDTH\<rparr>)
               else beep BEEP_LOW st)
         | KEY_RIGHT \<Rightarrow>
             Some (NOTIFY_STOP,
               if vc_view_x st + of_nat WIDTH < vc_cols vc then
                 st\<lparr>vc_view_x := vc_view_x st + of_nat WIDTH\<rparr>
               else if vc_view_y st + 1 < vc_rows vc then
                 (let st = beep BEEP_HIGH st;
                      st = st\<lparr>vc_view_y := vc_view_y st + 1\<rparr>
                  in st\<lparr>vc_view_x := 0\<rparr>)
               else beep BEEP_LOW st)
         | KEY_DOWN \<Rightarrow>
             Some (NOTIFY_STOP,
               if vc_view_y st + 1 < vc_rows vc then st\<lparr>vc_view_y := vc_view_y st + 1\<rparr>
               else beep BEEP_LOW st)
         | KEY_UP \<Rightarrow>
             Some (NOTIFY_STOP,
               if sint (vc_view_y st) \<ge> 1 then st\<lparr>vc_view_y := vc_view_y st - 1\<rparr>
               else beep BEEP_LOW st)
         | KEY_HOME \<Rightarrow> Some (NOTIFY_STOP, vc_follow_cursor vc st)
         | KEY_PAGEUP \<Rightarrow> Some (NOTIFY_STOP, st\<lparr>vc_view_x := 0, vc_view_y := 0\<rparr>)
         | KEY_PAGEDOWN \<Rightarrow> Some (NOTIFY_STOP, st\<lparr>vc_view_x := 0, vc_view_y := vc_rows vc - 1\<rparr>)
         | KEY_OTHER _ \<Rightarrow> Some (NOTIFY_OK, st)) of
        None \<Rightarrow> None
      | Some (ret, st) \<Rightarrow> Some (ret, refresh_vc vc st))"

definition keyboard_notifier_call ::
  "kbd_code \<Rightarrow> keyboard_notifier_param \<Rightarrow> state \<Rightarrow> (notify \<times> state) option" where
  "keyboard_notifier_call code param st =
     (let vc = kp_vc param; ret = NOTIFY_OK in
      if kp_down param = 0 then Some (ret, st)
      else
        (case code of
           KBD_KEYCODE \<Rightarrow>
             if console_show st \<noteq> 0 then Some (handle_console_key param vc st)
             else handle_vc_key param vc st
         | KBD_POST_KEYSYM \<Rightarrow>
             (let on_off = kp_on_off param in
              Some (ret, if on_off = 1 then beep BEEP_HIGH st
                         else if on_off = 0 then beep BEEP_MED st
                         else st))
         | KBD_UNBOUND_KEYCODE \<Rightarrow> Some (ret, st)
         | KBD_UNICODE \<Rightarrow> Some (ret, st)
         | KBD_KEYSYM \<Rightarrow> Some (ret, st)))"

subsection \<open>The line buffer and the VT notifier\<close>

text \<open>
  \<open>struct vt_notifier_param\<close>: the console and the character, an \<open>unsigned int\<close> that
  the handler narrows to \<open>unsigned char\<close>.
\<close>

record vt_notifier_param =
  vp_vc :: vc_data
  vp_c :: u32

text \<open>The inner \<open>switch (c)\<close> of the \<open>VT_WRITE\<close> case (lines 268 to 293).\<close>

definition vt_write_switch :: "u8 \<Rightarrow> state \<Rightarrow> state option" where
  "vt_write_switch c st =
     (if c = 8 \<or> c = 127 then
        (if console_cursor st > 0 then
           (let st = st\<lparr>console_cursor := console_cursor st - 1\<rparr> in
            case store (console_buf st) (console_cursor st) 0x20 of
              None \<Rightarrow> None
            | Some buf \<Rightarrow> Some (st\<lparr>console_buf := buf\<rparr>))
         else Some st)
      else if c = 10 \<or> c = 11 \<or> c = 12 \<or> c = 13 then
        Some (st\<lparr>console_newline := 1\<rparr>)
      else
        (let c = (if c = 9 then 0x20 else c) in
         if c < 32 then Some st
         else
           (let st = (if console_newline st \<noteq> 0 then
                        st\<lparr>console_buf := memset_all (console_buf st) 0,
                           console_cursor := 0,
                           console_newline := 0\<rparr>
                      else st);
                st = (if console_cursor st = int WIDTH then
                        st\<lparr>console_buf := memmove_down (console_buf st) (WIDTH - 1)\<rparr>
                      else st\<lparr>console_cursor := console_cursor st + 1\<rparr>)
            in case store (console_buf st) (console_cursor st - 1) (ucast c) of
                 None \<Rightarrow> None
               | Some buf \<Rightarrow> Some (st\<lparr>console_buf := buf\<rparr>))))"

text \<open>\<open>fg_console\<close> is a global of the terminal subsystem: it comes with the call.\<close>

definition vt_notifier_call ::
  "int \<Rightarrow> vt_code \<Rightarrow> vt_notifier_param \<Rightarrow> state \<Rightarrow> (notify \<times> state) option" where
  "vt_notifier_call fg_console code param st =
     (let vc = vp_vc param in
      case code of
        VT_WRITE \<Rightarrow>
          (let c = (ucast (vp_c param) :: u8) in
           if vc_num vc \<noteq> fg_console then Some (NOTIFY_OK, st)
           else
             (case vt_write_switch c st of
                None \<Rightarrow> None
              | Some st \<Rightarrow>
                  if console_show st \<noteq> 0 then
                    map_option (Pair NOTIFY_OK) (braille_write (console_buf st) st)
                  else Some (NOTIFY_OK, refresh_vc vc st)))
      | VT_UPDATE \<Rightarrow>
          if console_show st \<noteq> 0 then
            (if vc_num vc \<noteq> lastVC st then
               (let st = st\<lparr>lastVC := vc_num vc\<rparr>;
                    st = st\<lparr>console_buf := memset_all (console_buf st) 0\<rparr>;
                    st = st\<lparr>console_cursor := 0\<rparr>
                in map_option (Pair NOTIFY_OK) (braille_write (console_buf st) st))
             else Some (NOTIFY_OK, st))
          else Some (NOTIFY_OK, refresh_vc vc st)
      | VT_ALLOCATE \<Rightarrow> Some (NOTIFY_OK, st)
      | VT_DEALLOCATE \<Rightarrow> Some (NOTIFY_OK, st)
      | VT_PREWRITE \<Rightarrow> Some (NOTIFY_OK, st))"

subsection \<open>Console registration\<close>

text \<open>The \<open>int index\<close> is narrowed to the \<open>short\<close> field.\<close>

definition braille_register_console ::
  "co_ptr \<Rightarrow> u32 \<Rightarrow> string option \<Rightarrow> string option \<Rightarrow> state \<Rightarrow> (errno + int) \<times> state" where
  "braille_register_console console index' console_options braille_options st =
     (let console_options = (case console_options of None \<Rightarrow> ''57600o8'' | Some s \<Rightarrow> s) in
      if braille_co st \<noteq> None then (Inl ENODEV, st)
      else
        (let (ret, st) =
               (case setup_fn (consoles st console) of
                  None \<Rightarrow> (0, st)
                | Some f \<Rightarrow> (f console_options, emit (Setup console console_options) st))
         in if ret \<noteq> 0 then (Inl (SETUP_FAILED ret), st)
            else
              (let co = consoles st console;
                   co = co\<lparr>flags := insert CON_ENABLED (flags co)\<rparr>;
                   co = co\<lparr>index := ucast index'\<rparr>;
                   st = st\<lparr>consoles := (consoles st)(console := co)\<rparr>;
                   st = st\<lparr>braille_co := Some console\<rparr>;
                   st = emit Register_keyboard_notifier st;
                   st = emit Register_vt_notifier st
               in (Inr 1, st))))"

definition braille_unregister_console :: "co_ptr \<Rightarrow> state \<Rightarrow> (errno + int) \<times> state" where
  "braille_unregister_console console st =
     (if braille_co st \<noteq> Some console then (Inl EINVAL, st)
      else
        (let st = emit Unregister_keyboard_notifier st;
             st = emit Unregister_vt_notifier st;
             st = st\<lparr>braille_co := None\<rparr>
         in (Inr 1, st)))"

subsection \<open>Sequences of notifications\<close>

datatype event =
  Keyboard kbd_code keyboard_notifier_param
  | Vt int vt_code vt_notifier_param

definition step :: "event \<Rightarrow> state \<Rightarrow> state option" where
  "step e st =
     (case e of
        Keyboard code param \<Rightarrow> map_option snd (keyboard_notifier_call code param st)
      | Vt fg_console code param \<Rightarrow> map_option snd (vt_notifier_call fg_console code param st))"

fun run :: "event list \<Rightarrow> state \<Rightarrow> state option" where
  "run [] st = Some st"
| "run (e # es) st = (case step e st of None \<Rightarrow> None | Some st' \<Rightarrow> run es st')"

section \<open>The frame as the specification describes it\<close>

text \<open>
  The wire format in the words of the specification: every entry of the line is
  substituted (\<open>'?'\<close> for a value that does not fit a byte, a space for 0), the checksum
  is the exclusive or of the command byte \<open>'>'\<close> and the substituted values, and a data
  byte is escaped by the prefix \<open>SOH\<close> and the bit \<open>0x40\<close>. \<open>escape\<close> follows the
  comparison of the code (a value up to 5); \<open>escape_1_5\<close> follows the sentence of the
  specification (a value from 1 to 5).
\<close>

definition substitute :: "u16 \<Rightarrow> u8" where
  "substitute b = (if b \<ge> 0x100 then 0x3F else if b = 0 then 0x20 else ucast b)"

definition escape :: "u8 \<Rightarrow> u8 list" where
  "escape v = (if v \<le> 5 then [SOH, v OR 0x40] else [v])"

definition checksum :: "u16 list \<Rightarrow> u8" where
  "checksum buf = foldl (XOR) 0x3E (map substitute buf)"

definition escaped :: "u16 list \<Rightarrow> u8 list" where
  "escaped bs = concat (map (\<lambda>b. escape (substitute b)) bs)"

definition frame_of :: "u16 list \<Rightarrow> u8 list" where
  "frame_of buf = STX # 0x3E # escaped buf @ escape (checksum buf) @ [ETX]"

definition escape_1_5 :: "u8 \<Rightarrow> u8 list" where
  "escape_1_5 v = (if 1 \<le> v \<and> v \<le> 5 then [SOH, v OR 0x40] else [v])"

text \<open>The receiver's side of the escaping: the byte after \<open>SOH\<close> loses the bit \<open>0x40\<close>.\<close>

fun unescape :: "u8 list \<Rightarrow> u8 list" where
  "unescape [] = []"
| "unescape [a] = [a]"
| "unescape (a # b # bs) =
     (if a = SOH then (b AND NOT 0x40) # unescape bs else a # unescape (b # bs))"

section \<open>Invariants, notifications and the states used as examples\<close>

text \<open>The two static arrays have \<open>WIDTH\<close> entries.\<close>

definition wf_state :: "state \<Rightarrow> bool" where
  "wf_state st \<longleftrightarrow> length (console_buf st) = WIDTH \<and> length (last_write_buf st) = WIDTH"

text \<open>A console without a setup function, and the state after it has been registered.\<close>

definition console0 :: console where
  "console0 = \<lparr> flags = {}, index = 0, setup_fn = None \<rparr>"

definition bound_state :: state where
  "bound_state = snd (braille_register_console 0 0 None None (init_state False (\<lambda>_. console0)))"

text \<open>The line \<open>a_\<close> followed by 38 empty cells.\<close>

definition line_a_underscore :: "u16 list" where
  "line_a_underscore = [0x61, 0x5F] @ replicate 38 0"

text \<open>A line with a control code and a value beyond a byte.\<close>

definition line_ctrl :: "u16 list" where
  "line_ctrl = [0x48, 0x03, 0x141] @ replicate 37 0"

text \<open>A console of 100 columns and 25 rows.\<close>

definition vc_100x25 :: vc_data where
  "vc_100x25 = \<lparr> vc_num = 1, vc_cols = 100, vc_rows = 25, state_x = 0, state_y = 0 \<rparr>"

text \<open>The cursor stays inside the line and the arrays keep their size.\<close>

definition cursor_inv :: "state \<Rightarrow> bool" where
  "cursor_inv st \<longleftrightarrow>
     wf_state st \<and> 0 \<le> console_cursor st \<and> console_cursor st \<le> int WIDTH"

text \<open>A \<open>VT_WRITE\<close> notification for the character \<open>c\<close> on the foreground console.\<close>

definition vt_write_event :: "vc_data \<Rightarrow> u32 \<Rightarrow> event" where
  "vt_write_event vc c = Vt (vc_num vc) VT_WRITE \<lparr>vp_vc = vc, vp_c = c\<rparr>"

text \<open>A character the line buffer stores: not a control code, not delete.\<close>

definition printable :: "u32 \<Rightarrow> bool" where
  "printable c \<longleftrightarrow> 0x20 \<le> c \<and> c \<le> 0xFF \<and> c \<noteq> 0x7F"

text \<open>
  The bound state with the new-line flag clear (a blank line, the cursor at 0), the same
  with the cursor at the end of the line, and the 41 characters from \<open>A\<close> to \<open>i\<close>.
\<close>

definition typing_state :: state where
  "typing_state = bound_state\<lparr>console_newline := 0\<rparr>"

definition full_line_state :: state where
  "full_line_state = typing_state\<lparr>console_cursor := 40\<rparr>"

definition chars_41 :: "u32 list" where
  "chars_41 = map of_nat [65..<106]"

text \<open>The frames handed to the transport, in order.\<close>

fun is_write :: "effect \<Rightarrow> bool" where
  "is_write (Write co bytes) = True"
| "is_write e = False"

definition transport_writes :: "state \<Rightarrow> effect list" where
  "transport_writes st = filter is_write (trace st)"

text \<open>A press of the trigger key: a key-down notification of \<open>KEY_INSERT\<close>.\<close>

fun is_trigger :: "event \<Rightarrow> bool" where
  "is_trigger (Keyboard code param) =
     (code = KBD_KEYCODE \<and> kp_down param \<noteq> 0 \<and> kp_value param = KEY_INSERT)"
| "is_trigger (Vt fg code param) = False"

definition insert_down :: event where
  "insert_down = Keyboard KBD_KEYCODE
     \<lparr>kp_vc = vc_100x25, kp_down = 1, kp_value = KEY_INSERT, kp_on_off = - 1\<rparr>"

text \<open>A browsing state with sounds on and the window at \<open>(x, y)\<close>.\<close>

definition sound_browsing :: "u32 \<Rightarrow> u32 \<Rightarrow> state" where
  "sound_browsing x y =
     bound_state\<lparr>sound := True, console_show := 0, vc_view_x := x, vc_view_y := y\<rparr>"

definition key_down :: "key \<Rightarrow> keyboard_notifier_param" where
  "key_down k = \<lparr>kp_vc = vc_100x25, kp_down = 1, kp_value = k, kp_on_off = - 1\<rparr>"

text \<open>An output array that is not zero to begin with.\<close>

definition data_aa :: "u8 list" where
  "data_aa = replicate 85 0xAA"

text \<open>The console a notification is about, a console whose grid size and cursor fit an
  \<open>int\<close>, and the range the handlers keep the window in on such consoles.
\<close>

fun event_vc :: "event \<Rightarrow> vc_data" where
  "event_vc (Keyboard code param) = kp_vc param"
| "event_vc (Vt fg code param) = vp_vc param"

definition vc_small :: "vc_data \<Rightarrow> bool" where
  "vc_small vc \<longleftrightarrow>
     uint (vc_cols vc) < 2 ^ 31 \<and> uint (vc_rows vc) < 2 ^ 31
     \<and> uint (state_x vc) < 2 ^ 31 \<and> uint (state_y vc) < 2 ^ 31"

definition view_range :: "state \<Rightarrow> bool" where
  "view_range st \<longleftrightarrow> - int WIDTH \<le> sint (vc_view_x st) \<and> - 1 \<le> sint (vc_view_y st)"

section \<open>Properties of the frame encoder\<close>

lemma u16_le5_ucast: "\<not> (b::u16) \<ge> 0x100 \<Longrightarrow> (b \<le> 5) = ((ucast b :: u8) \<le> 5)"
  by (simp add: word_le_nat_alt word_less_nat_alt unsigned_ucast_eq take_bit_eq_mod not_le)

lemma ucast_or40: "(ucast ((b::u16) OR 0x40) :: u8) = ucast b OR 0x40"
  by (rule bit_word_eqI) (auto simp add: bit_simps)

lemma u8_le5_cases: "(v::u8) \<le> 5 \<Longrightarrow> v = 0 \<or> v = 1 \<or> v = 2 \<or> v = 3 \<or> v = 4 \<or> v = 5"
  by (simp add: word_unat_eq_iff word_le_nat_alt) arith

lemma store_push:
  assumes "0 \<le> p" "p < int (length a)"
  shows "\<exists>a'. store a p v = Some a' \<and> length a' = length a
           \<and> take (nat (p + 1)) a' = take (nat p) a @ [v]"
proof -
  from assms have n: "nat p < length a" and s: "nat (p + 1) = Suc (nat p)" by auto
  from assms have "store a p v = Some (a[nat p := v])" by (simp add: store_def)
  moreover have "take (Suc (nat p)) (a[nat p := v]) = take (nat p) a @ [v]"
    using n by (simp add: take_Suc_conv_app_nth)
  ultimately show ?thesis using s by simp
qed

lemma subst_char_val:
  "(if b \<ge> 0x100 then 0x3F else if b = 0x00 then 0x20 else b) \<le> (0x05::u16)
     \<longleftrightarrow> substitute b \<le> 5"
  by (simp add: substitute_def u16_le5_ucast)

lemma subst_ucast:
  "ucast (if b \<ge> 0x100 then 0x3F else if b = 0x00 then 0x20 else b :: u16) = substitute b"
  by (simp add: substitute_def)

lemma braille_put_spec:
  assumes "0 \<le> p" "p + 2 \<le> int (length data)"
  shows "\<exists>data'. braille_put b (csum, data, p)
             = Some (csum XOR substitute b, data', p + int (length (escape (substitute b))))
           \<and> length data' = length data
           \<and> take (nat (p + int (length (escape (substitute b))))) data'
               = take (nat p) data @ escape (substitute b)"
proof (cases "substitute b \<le> 5")
  case True
  from assms obtain d1 where d1: "store data p SOH = Some d1" "length d1 = length data"
      "take (nat (p + 1)) d1 = take (nat p) data @ [SOH]"
    using store_push [of p data SOH] by auto
  from assms d1 obtain d2 where d2: "store d1 (p + 1) (substitute b OR 0x40) = Some d2"
      "length d2 = length d1" "take (nat (p + 1 + 1)) d2 = take (nat (p + 1)) d1 @ [substitute b OR 0x40]"
    using store_push [of "p + 1" d1 "substitute b OR 0x40"] by auto
  have "braille_put b (csum, data, p) = Some (csum XOR substitute b, d2, p + 2)"
    using True d1 d2
    by (simp add: braille_put_def Let_def subst_char_val subst_ucast ucast_or40)
  then show ?thesis using True d1 d2 by (simp add: escape_def add.assoc)
next
  case False
  from assms obtain d1 where d1: "store data p (substitute b) = Some d1" "length d1 = length data"
      "take (nat (p + 1)) d1 = take (nat p) data @ [substitute b]"
    using store_push [of p data "substitute b"] by auto
  have "braille_put b (csum, data, p) = Some (csum XOR substitute b, d1, p + 1)"
    using False d1
    by (simp add: braille_put_def Let_def subst_char_val subst_ucast)
  then show ?thesis using False d1 by (simp add: escape_def)
qed

lemma length_escape: "length (escape v) \<le> 2" "1 \<le> length (escape v)"
  by (simp_all add: escape_def)

lemma length_escaped: "length bs \<le> length (escaped bs)" "length (escaped bs) \<le> 2 * length bs"
proof -
  show "length bs \<le> length (escaped bs)"
    by (induction bs) (simp_all add: escaped_def escape_def)
  show "length (escaped bs) \<le> 2 * length bs"
    by (induction bs) (simp_all add: escaped_def escape_def)
qed

lemma braille_loop_spec:
  assumes "length buf = WIDTH" "i \<le> WIDTH" "0 \<le> p"
    and "p + 2 * int (WIDTH - i) \<le> int (length data)"
  shows "\<exists>data'. braille_loop buf i (csum, data, p)
             = Some (foldl (XOR) csum (map substitute (drop i buf)), data',
                     p + int (length (escaped (drop i buf))))
           \<and> length data' = length data
           \<and> take (nat (p + int (length (escaped (drop i buf))))) data'
               = take (nat p) data @ escaped (drop i buf)"
  using assms
proof (induction "WIDTH - i" arbitrary: i csum data p)
  case 0
  then have "i = WIDTH" by simp
  with 0 show ?case
    by (subst braille_loop.simps) (simp add: escaped_def)
next
  case (Suc n)
  then have i: "i < WIDTH" "i < length buf" by simp_all
  let ?b = "buf ! i"
  have ld: "load buf (int i) = Some ?b" using i by (simp add: load_def)
  have dr: "drop i buf = ?b # drop (Suc i) buf" using i by (simp add: Cons_nth_drop_Suc)
  let ?k = "int (length (escape (substitute ?b)))"
  from Suc.prems i obtain d1 where
    d1: "braille_put ?b (csum, data, p) = Some (csum XOR substitute ?b, d1, p + ?k)"
        "length d1 = length data"
        "take (nat (p + ?k)) d1 = take (nat p) data @ escape (substitute ?b)"
    using braille_put_spec [of p data ?b csum] by auto
  have k: "?k \<le> 2" "1 \<le> ?k" using length_escape [of "substitute ?b"] by simp_all
  have "n = WIDTH - Suc i" using Suc.hyps(2) by simp
  moreover have "Suc i \<le> WIDTH" using i by simp
  moreover have "0 \<le> p + ?k" using Suc.prems(3) k by simp
  moreover have "p + ?k + 2 * int (WIDTH - Suc i) \<le> int (length d1)"
    using Suc.prems(4) k i d1(2) by simp
  ultimately obtain d2 where
    d2: "braille_loop buf (Suc i) (csum XOR substitute ?b, d1, p + ?k)
           = Some (foldl (XOR) (csum XOR substitute ?b) (map substitute (drop (Suc i) buf)), d2,
                   p + ?k + int (length (escaped (drop (Suc i) buf))))"
        "length d2 = length d1"
        "take (nat (p + ?k + int (length (escaped (drop (Suc i) buf))))) d2
           = take (nat (p + ?k)) d1 @ escaped (drop (Suc i) buf)"
    using Suc.hyps(1) [of "Suc i" "p + ?k" d1 "csum XOR substitute ?b"] Suc.prems(1) by blast
  have e: "escaped (drop i buf) = escape (substitute ?b) @ escaped (drop (Suc i) buf)"
    by (simp add: dr escaped_def)
  have "braille_loop buf i (csum, data, p)
          = braille_loop buf (Suc i) (csum XOR substitute ?b, d1, p + ?k)"
    by (subst braille_loop.simps) (simp add: i ld d1)
  moreover have "foldl (XOR) csum (map substitute (drop i buf))
      = foldl (XOR) (csum XOR substitute ?b) (map substitute (drop (Suc i) buf))"
    by (simp add: dr)
  ultimately show ?case
    using d1 d2 by (simp add: e add.assoc)
qed

lemma braille_frame_spec:
  assumes "length buf = WIDTH" "length data0 = 2 * WIDTH + 5"
  shows "\<exists>data. braille_frame buf data0 = Some (data, int (length (frame_of buf)))
           \<and> length data = length data0
           \<and> take (length (frame_of buf)) data = frame_of buf"
proof -
  let ?n = "int (length (escaped buf))"
  have n: "?n \<le> 80" using length_escaped(2) [of buf] assms(1) by (simp add: WIDTH_def)
  from assms obtain d1 where d1: "store data0 0 STX = Some d1" "length d1 = length data0"
      "take (nat (0 + 1)) d1 = take (nat 0) data0 @ [STX]"
    using store_push [of 0 data0 STX] by (auto simp: WIDTH_def)
  from assms d1 obtain d2 where d2: "store d1 1 0x3E = Some d2" "length d2 = length d1"
      "take (nat (1 + 1)) d2 = take (nat 1) d1 @ [0x3E]"
    using store_push [of 1 d1 "0x3E"] by (auto simp: WIDTH_def)
  have t2: "take (nat 2) d2 = [STX, 0x3E]" using d1(3) d2(3) by simp
  have "2 + 2 * int (WIDTH - 0) \<le> int (length d2)"
    using assms(2) d1(2) d2(2) by simp
  then obtain d3 where d3: "braille_loop buf 0 (0 XOR 0x3E, d2, 2)
        = Some (checksum buf, d3, 2 + ?n)"
      "length d3 = length d2"
      "take (nat (2 + ?n)) d3 = take (nat 2) d2 @ escaped buf"
    using braille_loop_spec [of buf 0 2 d2 "0 XOR 0x3E"] assms(1)
    by (auto simp: checksum_def)
  have len3: "length d3 = 85" using d3(2) d2(2) d1(2) assms(2) by (simp add: WIDTH_def)
  show ?thesis
  proof (cases "checksum buf \<le> 5")
    case True
    from n len3 obtain d4 where d4: "store d3 (2 + ?n) SOH = Some d4" "length d4 = length d3"
        "take (nat (2 + ?n + 1)) d4 = take (nat (2 + ?n)) d3 @ [SOH]"
      using store_push [of "2 + ?n" d3 SOH] by auto
    from n len3 d4 obtain d5 where d5: "store d4 (2 + ?n + 1) (checksum buf OR 0x40) = Some d5"
        "length d5 = length d4"
        "take (nat (2 + ?n + 1 + 1)) d5 = take (nat (2 + ?n + 1)) d4 @ [checksum buf OR 0x40]"
      using store_push [of "2 + ?n + 1" d4 "checksum buf OR 0x40"] by auto
    from n len3 d4 d5 obtain d6 where d6: "store d5 (2 + ?n + 1 + 1) ETX = Some d6"
        "length d6 = length d5"
        "take (nat (2 + ?n + 1 + 1 + 1)) d6 = take (nat (2 + ?n + 1 + 1)) d5 @ [ETX]"
      using store_push [of "2 + ?n + 1 + 1" d5 ETX] by auto
    have l: "int (length (frame_of buf)) = 2 + ?n + 1 + 1 + 1"
      using True by (simp add: frame_of_def escape_def)
    have "braille_frame buf data0 = Some (d6, 2 + ?n + 1 + 1 + 1)"
      using True d1(1) d2(1) d3(1) d4(1) d5(1) d6(1)
      by (simp add: braille_frame_def add.assoc)
    moreover have "take (nat (2 + ?n + 1 + 1 + 1)) d6 = frame_of buf"
      using True d6(3) d5(3) d4(3) d3(3) t2 by (simp add: frame_of_def escape_def)
    moreover have "length d6 = length data0"
      using d6(2) d5(2) d4(2) d3(2) d2(2) d1(2) by simp
    moreover have "nat (2 + ?n + 1 + 1 + 1) = length (frame_of buf)"
      using l by linarith
    ultimately show ?thesis using l by (metis)
  next
    case False
    from n len3 obtain d5 where d5: "store d3 (2 + ?n) (checksum buf) = Some d5"
        "length d5 = length d3"
        "take (nat (2 + ?n + 1)) d5 = take (nat (2 + ?n)) d3 @ [checksum buf]"
      using store_push [of "2 + ?n" d3 "checksum buf"] by auto
    from n len3 d5 obtain d6 where d6: "store d5 (2 + ?n + 1) ETX = Some d6"
        "length d6 = length d5"
        "take (nat (2 + ?n + 1 + 1)) d6 = take (nat (2 + ?n + 1)) d5 @ [ETX]"
      using store_push [of "2 + ?n + 1" d5 ETX] by auto
    have l: "int (length (frame_of buf)) = 2 + ?n + 1 + 1"
      using False by (simp add: frame_of_def escape_def)
    have "braille_frame buf data0 = Some (d6, 2 + ?n + 1 + 1)"
      using False d1(1) d2(1) d3(1) d5(1) d6(1)
      by (simp add: braille_frame_def add.assoc)
    moreover have "take (nat (2 + ?n + 1 + 1)) d6 = frame_of buf"
      using False d6(3) d5(3) d3(3) t2 by (simp add: frame_of_def escape_def)
    moreover have "length d6 = length data0"
      using d6(2) d5(2) d3(2) d2(2) d1(2) by simp
    moreover have "nat (2 + ?n + 1 + 1) = length (frame_of buf)"
      using l by linarith
    ultimately show ?thesis using l by (metis)
  qed
qed

subsection \<open>What \<open>braille_write\<close> sends\<close>

lemma braille_write_unbound: "braille_co st = None \<Longrightarrow> braille_write buf st = Some st"
  by (simp add: braille_write_def)

lemma braille_write_same:
  assumes "wf_state st" "length buf = WIDTH" "buf = last_write_buf st"
  shows "braille_write buf st = Some st"
  using assms by (simp add: braille_write_def memcmp_eq_def wf_state_def split: option.splits)

lemma braille_write_new:
  assumes "wf_state st" "braille_co st = Some co" "length buf = WIDTH" "buf \<noteq> last_write_buf st"
  shows "braille_write buf st
           = Some (emit (Write co (frame_of buf)) (st\<lparr>last_write_buf := buf\<rparr>))"
proof -
  obtain data where d: "braille_frame buf (replicate (1 + 1 + 2 * WIDTH + 2 + 1) 0)
        = Some (data, int (length (frame_of buf)))"
      "take (length (frame_of buf)) data = frame_of buf"
    using braille_frame_spec [of buf "replicate (1 + 1 + 2 * WIDTH + 2 + 1) 0"] assms(3)
    by auto
  show ?thesis
    using assms d by (simp add: braille_write_def memcmp_eq_def memcpy_def wf_state_def)
qed

lemma bound_state_eq:
  "bound_state = \<lparr> sound = False,
       console_buf = replicate WIDTH 0,
       console_cursor = 0,
       vc_view_x = 0, vc_view_y = 0, lastvc_x = 0, lastvc_y = 0,
       console_show = 1,
       console_newline = 1,
       lastVC = - 1,
       braille_co = Some 0,
       last_write_buf = replicate WIDTH 0,
       consoles = (\<lambda>_. console0)(0 := \<lparr> flags = {CON_ENABLED}, index = 0, setup_fn = None \<rparr>),
       trace = [Register_keyboard_notifier, Register_vt_notifier] \<rparr>"
  by (simp add: bound_state_def braille_register_console_def init_state_def console0_def emit_def)

lemma unescape_escape: "unescape (escape v @ r) = v # unescape r"
proof (cases "v \<le> 5")
  case True
  then have "(v OR 0x40) AND NOT 0x40 = v"
    using u8_le5_cases [of v] by auto
  with True show ?thesis by (simp add: escape_def)
next
  case False
  then have "v \<noteq> SOH" by (auto simp: SOH_def)
  with False show ?thesis by (cases r) (simp_all add: escape_def)
qed

lemma unescape_escaped: "unescape (escaped bs @ escape c) = map substitute bs @ [c]"
proof (induction bs)
  case Nil
  show ?case using unescape_escape [of c "[]"] by (simp add: escaped_def)
next
  case (Cons b bs)
  then show ?case using unescape_escape [of "substitute b" "escaped bs @ escape c"]
    by (simp add: escaped_def)
qed

lemma wf_bound_state: "wf_state bound_state"
  by (simp add: bound_state_eq wf_state_def)

lemma line_a_underscore_neq: "line_a_underscore \<noteq> replicate WIDTH 0"
  by code_simp

lemma line_a_underscore_new:
  "length line_a_underscore = WIDTH" "line_a_underscore \<noteq> last_write_buf bound_state"
  by (simp_all add: line_a_underscore_neq bound_state_eq) (simp add: line_a_underscore_def WIDTH_def)

lemma frame_of_line_a_underscore:
  "frame_of line_a_underscore = [0x02, 0x3E, 0x61, 0x5F] @ replicate 38 0x20 @ [0x01, 0x40, 0x03]"
  by code_simp

text \<open>
  Claim C1, as the code has it. A line of \<open>WIDTH\<close> entries that differs from the line
  sent last is written to the bound device as \<open>STX\<close>, \<open>'>'\<close>, the \<open>WIDTH\<close> substituted
  characters, the checksum and \<open>ETX\<close>, where each of these \<open>WIDTH + 1\<close> data bytes is
  emitted as \<open>SOH\<close> followed by the value with the bit \<open>0x40\<close> set if and only if its
  value is at most 5, and unmodified otherwise. A substituted character is never 0, so
  for the characters "at most 5" is the range from 1 to 5; the checksum is escaped at 0
  as well.
\<close>

theorem escape_rule_of_braille_write:
  assumes "wf_state st" "braille_co st = Some co" "length buf = WIDTH" "buf \<noteq> last_write_buf st"
  shows "\<exists>st'. braille_write buf st = Some st'
           \<and> trace st' = trace st @
               [Write co (STX # 0x3E #
                  concat (map (\<lambda>v. if v \<le> 5 then [SOH, v OR 0x40] else [v])
                            (map substitute buf @ [checksum buf])) @ [ETX])]
           \<and> (\<forall>b. substitute b \<noteq> 0)"
proof -
  have "frame_of buf = STX # 0x3E #
          concat (map (\<lambda>v. if v \<le> 5 then [SOH, v OR 0x40] else [v])
                    (map substitute buf @ [checksum buf])) @ [ETX]"
    by (simp add: frame_of_def escaped_def escape_def comp_def)
  moreover have "\<forall>b. substitute b \<noteq> 0"
    by (simp add: substitute_def word_unat_eq_iff unsigned_ucast_eq take_bit_eq_mod
        word_le_nat_alt not_le)
  ultimately show ?thesis
    using braille_write_new [OF assms] by (simp add: emit_def)
qed

theorem escape_rule_of_braille_write_witness:
  "wf_state bound_state \<and> braille_co bound_state = Some 0
   \<and> length line_a_underscore = WIDTH \<and> line_a_underscore \<noteq> last_write_buf bound_state
   \<and> (\<exists>st'. braille_write line_a_underscore bound_state = Some st'
           \<and> trace st' = trace bound_state @
               [Write 0 (STX # 0x3E #
                  concat (map (\<lambda>v. if v \<le> 5 then [SOH, v OR 0x40] else [v])
                            (map substitute line_a_underscore @ [checksum line_a_underscore]))
                  @ [ETX])])"
proof -
  have h: "wf_state bound_state" "braille_co bound_state = Some 0"
    "length line_a_underscore = WIDTH" "line_a_underscore \<noteq> last_write_buf bound_state"
    by (simp_all add: wf_bound_state line_a_underscore_new) (simp add: bound_state_eq)
  from escape_rule_of_braille_write [OF h] h show ?thesis by blast
qed

text \<open>
  The line \<open>a_\<close> has the checksum 0, which is outside the range from 1 to 5, and the
  frame carries it as \<open>SOH\<close>, \<open>0x40\<close>: escaping the range from 1 to 5 only would give a
  different frame.
\<close>

theorem zero_checksum_is_escaped:
  "map_option fst (braille_loop line_a_underscore 0 (0 XOR 0x3E, [STX, 0x3E] @ replicate 83 0, 2))
     = Some 0
   \<and> map_option trace (braille_write line_a_underscore bound_state)
     = Some (trace bound_state @
         [Write 0 ([0x02, 0x3E, 0x61, 0x5F] @ replicate 38 0x20 @ [0x01, 0x40, 0x03])])
   \<and> [0x02, 0x3E, 0x61, 0x5F] @ replicate 38 0x20 @ [0x01, 0x40, 0x03]
     \<noteq> STX # 0x3E # concat (map escape_1_5
           (map substitute line_a_underscore @ [checksum line_a_underscore])) @ [ETX]"
proof -
  have "map_option fst (braille_loop line_a_underscore 0 (0 XOR 0x3E, [STX, 0x3E] @ replicate 83 0, 2))
     = Some 0"
    by code_simp
  moreover have "map_option trace (braille_write line_a_underscore bound_state)
     = Some (trace bound_state @
         [Write 0 ([0x02, 0x3E, 0x61, 0x5F] @ replicate 38 0x20 @ [0x01, 0x40, 0x03])])"
    using braille_write_new [OF wf_bound_state _ line_a_underscore_new, of 0]
    by (simp add: bound_state_eq emit_def frame_of_line_a_underscore)
  moreover have "[0x02, 0x3E, 0x61, 0x5F] @ replicate 38 0x20 @ [0x01, 0x40, 0x03]
     \<noteq> STX # 0x3E # concat (map escape_1_5
           (map substitute line_a_underscore @ [checksum line_a_underscore])) @ [ETX]"
    by code_simp
  ultimately show ?thesis by blast
qed

text \<open>
  Claim C3. For a line of \<open>WIDTH\<close> entries that differs from the line sent last, the
  frame that \<open>braille_write\<close> hands to the bound device is \<open>STX\<close>, \<open>'>'\<close>, a body and
  \<open>ETX\<close>; undoing the escaping of the body gives the \<open>WIDTH\<close> substituted characters
  (\<open>'?'\<close> for a value of \<open>0x100\<close> or more, a space for 0) followed by one more byte, the
  exclusive or of \<open>'>'\<close> with all the substituted characters.
\<close>

theorem checksum_of_braille_write:
  assumes "wf_state st" "braille_co st = Some co" "length buf = WIDTH" "buf \<noteq> last_write_buf st"
  shows "\<exists>st' body. braille_write buf st = Some st'
           \<and> trace st' = trace st @ [Write co (STX # 0x3E # body @ [ETX])]
           \<and> unescape body
               = map (\<lambda>b. if b \<ge> 0x100 then 0x3F else if b = 0 then 0x20 else ucast b) buf
                 @ [foldl (XOR) 0x3E
                     (map (\<lambda>b. if b \<ge> 0x100 then 0x3F else if b = 0 then 0x20 else ucast b) buf)]"
proof -
  let ?body = "escaped buf @ escape (checksum buf)"
  have s: "substitute = (\<lambda>b. if b \<ge> 0x100 then 0x3F else if b = 0 then 0x20 else ucast b)"
    by (rule ext) (simp add: substitute_def)
  have "frame_of buf = STX # 0x3E # ?body @ [ETX]"
    by (simp add: frame_of_def)
  moreover have "unescape ?body = map substitute buf @ [foldl (XOR) 0x3E (map substitute buf)]"
    by (simp add: unescape_escaped checksum_def)
  ultimately show ?thesis
    using braille_write_new [OF assms] unfolding s [symmetric]
    by (intro exI [of _ "emit (Write co (frame_of buf)) (st\<lparr>last_write_buf := buf\<rparr>)"]
        exI [of _ ?body]) (simp add: emit_def)
qed

lemma line_ctrl_new:
  "length line_ctrl = WIDTH" "line_ctrl \<noteq> last_write_buf bound_state"
proof -
  show "length line_ctrl = WIDTH" by (simp add: line_ctrl_def WIDTH_def)
  have "line_ctrl \<noteq> replicate WIDTH 0" by code_simp
  then show "line_ctrl \<noteq> last_write_buf bound_state" by (simp add: bound_state_eq)
qed

lemma braille_co_bound_state: "braille_co bound_state = Some 0"
  by (simp add: bound_state_eq)

theorem checksum_of_braille_write_witness:
  "wf_state bound_state \<and> braille_co bound_state = Some 0
   \<and> length line_ctrl = WIDTH \<and> line_ctrl \<noteq> last_write_buf bound_state
   \<and> (\<exists>st' body. braille_write line_ctrl bound_state = Some st'
           \<and> trace st' = trace bound_state @ [Write 0 (STX # 0x3E # body @ [ETX])]
           \<and> unescape body = [0x48, 0x03, 0x3F] @ replicate 37 0x20 @ [0x6A])"
proof -
  have e: "map (\<lambda>b. if b \<ge> 0x100 then 0x3F else if b = 0 then 0x20 else ucast b) line_ctrl
           @ [foldl (XOR) 0x3E
               (map (\<lambda>b. if b \<ge> 0x100 then 0x3F else if b = 0 then 0x20 else ucast b) line_ctrl)]
        = [0x48, 0x03, 0x3F] @ replicate 37 0x20 @ [0x6A :: u8]"
    by code_simp
  show ?thesis
    using checksum_of_braille_write [OF wf_bound_state braille_co_bound_state line_ctrl_new]
      wf_bound_state braille_co_bound_state line_ctrl_new
    unfolding e by blast
qed

lemma wf_braille_write:
  assumes "wf_state st" "length buf = WIDTH" "braille_write buf st = Some st'"
  shows "wf_state st'"
proof (cases "braille_co st")
  case None
  with assms show ?thesis by (simp add: braille_write_unbound)
next
  case (Some co)
  show ?thesis
  proof (cases "buf = last_write_buf st")
    case True
    with assms show ?thesis by (simp add: braille_write_same)
  next
    case False
    with assms Some show ?thesis
      by (auto simp add: braille_write_new emit_def wf_state_def)
  qed
qed

text \<open>
  Claim C4, as the code has it. With a device bound, the first of two calls with the same
  line writes one frame if the line differs from the line sent last and nothing if it
  is equal to it; the second call writes nothing and leaves the state as it is, so any
  further repetition writes nothing either. Once a different line has been sent, the
  first line is sent again.
\<close>

theorem braille_write_dedup:
  assumes "wf_state st" "braille_co st = Some co" "length buf = WIDTH"
    and "length buf2 = WIDTH" "buf2 \<noteq> buf"
  shows "\<exists>st1 st2 st3.
           braille_write buf st = Some st1
           \<and> trace st1 = trace st @ (if buf = last_write_buf st then [] else [Write co (frame_of buf)])
           \<and> braille_write buf st1 = Some st1
           \<and> braille_write buf2 st1 = Some st2
           \<and> trace st2 = trace st1 @ [Write co (frame_of buf2)]
           \<and> braille_write buf st2 = Some st3
           \<and> trace st3 = trace st2 @ [Write co (frame_of buf)]"
proof -
  define st1 where "st1 = (if buf = last_write_buf st then st
     else emit (Write co (frame_of buf)) (st\<lparr>last_write_buf := buf\<rparr>))"
  have 1: "braille_write buf st = Some st1"
  proof (cases "buf = last_write_buf st")
    case True
    then show ?thesis using assms(1-3) braille_write_same [of st buf] by (simp add: st1_def)
  next
    case False
    then show ?thesis using assms(1-3) by (simp add: st1_def braille_write_new)
  qed
  have p1: "wf_state st1" "braille_co st1 = Some co" "last_write_buf st1 = buf"
    using assms(1-3) by (auto simp add: st1_def wf_state_def emit_def)
  have 2: "braille_write buf st1 = Some st1"
    using p1 assms(3) by (simp add: braille_write_same)
  define st2 where "st2 = emit (Write co (frame_of buf2)) (st1\<lparr>last_write_buf := buf2\<rparr>)"
  have 3: "braille_write buf2 st1 = Some st2"
    using p1 assms(4,5) by (simp add: st2_def braille_write_new)
  have p2: "wf_state st2" "braille_co st2 = Some co" "last_write_buf st2 = buf2"
    using p1 assms(4) by (auto simp add: st2_def wf_state_def emit_def)
  have 4: "braille_write buf st2
      = Some (emit (Write co (frame_of buf)) (st2\<lparr>last_write_buf := buf\<rparr>))"
    using p2 assms(3,5) by (simp add: braille_write_new)
  have "trace st1 = trace st @ (if buf = last_write_buf st then [] else [Write co (frame_of buf)])"
    by (simp add: st1_def emit_def)
  moreover have "trace st2 = trace st1 @ [Write co (frame_of buf2)]"
    by (simp add: st2_def emit_def)
  moreover have "trace (emit (Write co (frame_of buf)) (st2\<lparr>last_write_buf := buf\<rparr>))
      = trace st2 @ [Write co (frame_of buf)]"
    by (simp add: emit_def)
  ultimately show ?thesis using 1 2 3 4 by blast
qed

lemma line_ctrl_neq: "line_ctrl \<noteq> line_a_underscore"
  by code_simp

theorem braille_write_dedup_witness:
  "wf_state bound_state \<and> braille_co bound_state = Some 0 \<and> length line_a_underscore = WIDTH
   \<and> length line_ctrl = WIDTH \<and> line_ctrl \<noteq> line_a_underscore
   \<and> (\<exists>st1 st2 st3.
           braille_write line_a_underscore bound_state = Some st1
           \<and> trace st1 = trace bound_state @ [Write 0 (frame_of line_a_underscore)]
           \<and> braille_write line_a_underscore st1 = Some st1
           \<and> braille_write line_ctrl st1 = Some st2
           \<and> trace st2 = trace st1 @ [Write 0 (frame_of line_ctrl)]
           \<and> braille_write line_a_underscore st2 = Some st3
           \<and> trace st3 = trace st2 @ [Write 0 (frame_of line_a_underscore)])"
  using braille_write_dedup
      [OF wf_bound_state braille_co_bound_state line_a_underscore_new(1) line_ctrl_new(1)
          line_ctrl_neq]
    wf_bound_state braille_co_bound_state line_a_underscore_new(1) line_ctrl_new(1) line_ctrl_neq
  unfolding line_a_underscore_new(2) [THEN if_not_P]
  by blast

text \<open>
  The line sent last starts as zeros: two calls with the all-zero line on the freshly
  bound device write nothing at all, not one frame.
\<close>

theorem repeated_blank_line_is_never_written:
  "Option.bind (braille_write (replicate WIDTH 0) bound_state) (braille_write (replicate WIDTH 0))
     = Some bound_state
   \<and> trace bound_state = [Register_keyboard_notifier, Register_vt_notifier]"
proof -
  have l: "last_write_buf bound_state = replicate WIDTH 0"
    and t: "trace bound_state = [Register_keyboard_notifier, Register_vt_notifier]"
    by (simp_all add: bound_state_eq)
  have "braille_write (replicate WIDTH 0) bound_state = Some bound_state"
    by (rule braille_write_same [OF wf_bound_state _ l [symmetric]]) simp
  then show ?thesis using t by simp
qed

section \<open>Registration\<close>

text \<open>
  Claim C8. While a device is bound, \<open>braille_register_console\<close> returns \<open>-ENODEV\<close> and
  the state it returns is the state it was given: the bound device, the flags and the
  index of every console, and the trace (no call of a setup function, no notifier
  registered) are unchanged. This holds for any device passed in, so also for a
  different one.
\<close>

theorem register_while_bound:
  assumes "braille_co st = Some c1"
  shows "braille_register_console c2 idx console_options braille_options st = (Inl ENODEV, st)"
  using assms by (simp add: braille_register_console_def)

theorem register_while_bound_witness:
  "braille_co bound_state = Some 0
   \<and> braille_register_console 1 7 None None bound_state = (Inl ENODEV, bound_state)"
  using register_while_bound [OF braille_co_bound_state, of 1 7 None None]
    braille_co_bound_state by simp

section \<open>The line buffer\<close>

lemma braille_write_total:
  assumes "wf_state st" "length buf = WIDTH"
  shows "\<exists>l t. braille_write buf st = Some (st\<lparr>last_write_buf := l, trace := t\<rparr>)
           \<and> length l = WIDTH"
proof (cases "braille_co st")
  case None
  then have "braille_write buf st
      = Some (st\<lparr>last_write_buf := last_write_buf st, trace := trace st\<rparr>)"
    by (simp add: braille_write_unbound)
  then show ?thesis using assms(1) unfolding wf_state_def by blast
next
  case (Some co)
  show ?thesis
  proof (cases "buf = last_write_buf st")
    case True
    then have "braille_write buf st
        = Some (st\<lparr>last_write_buf := last_write_buf st, trace := trace st\<rparr>)"
      using assms braille_write_same [of st buf] by simp
    then show ?thesis using assms(1) unfolding wf_state_def by blast
  next
    case False
    then have "braille_write buf st
        = Some (st\<lparr>last_write_buf := buf, trace := trace st @ [Write co (frame_of buf)]\<rparr>)"
      using assms Some by (simp add: braille_write_new emit_def)
    then show ?thesis using assms(2) by blast
  qed
qed

lemma vt_write_call:
  assumes "wf_state st" "vc_num vc = fg" "vt_write_switch (ucast c) st = Some st1"
    and "length (console_buf st1) = WIDTH" "last_write_buf st1 = last_write_buf st"
  shows "\<exists>l t. vt_notifier_call fg VT_WRITE \<lparr>vp_vc = vc, vp_c = c\<rparr> st
             = Some (NOTIFY_OK, st1\<lparr>last_write_buf := l, trace := t\<rparr>)
           \<and> length l = WIDTH"
proof (cases "console_show st1 \<noteq> 0")
  case True
  have "wf_state st1" using assms(1,4,5) by (simp add: wf_state_def)
  then obtain l t where "braille_write (console_buf st1) st1
      = Some (st1\<lparr>last_write_buf := l, trace := t\<rparr>)" "length l = WIDTH"
    using braille_write_total [of st1 "console_buf st1"] assms(4) by blast
  then show ?thesis using True assms(2,3)
    by (auto simp add: vt_notifier_call_def)
next
  case False
  then have "vt_notifier_call fg VT_WRITE \<lparr>vp_vc = vc, vp_c = c\<rparr> st
      = Some (NOTIFY_OK, st1\<lparr>last_write_buf := last_write_buf st1,
          trace := trace st1 @ [Maybe_cursor_moved (vc_num vc), Vc_refresh (vc_num vc)]\<rparr>)"
    using assms(2,3) by (simp add: vt_notifier_call_def refresh_vc_def emit_def)
  then show ?thesis using assms(1,5) unfolding wf_state_def by (metis)
qed

lemma printable_u8:
  assumes "printable c"
  shows "(ucast c :: u8) \<noteq> 8" "(ucast c :: u8) \<noteq> 127" "(ucast c :: u8) \<noteq> 9"
    "(ucast c :: u8) \<noteq> 10" "(ucast c :: u8) \<noteq> 11" "(ucast c :: u8) \<noteq> 12"
    "(ucast c :: u8) \<noteq> 13" "\<not> (ucast c :: u8) < 32"
    "(ucast (ucast c :: u8) :: u16) = ucast c"
proof -
  from assms have u: "32 \<le> unat c" "unat c \<le> 255" "unat c \<noteq> 127"
    by (simp_all add: printable_def word_le_nat_alt word_unat_eq_iff)
  then have v: "unat (ucast c :: u8) = unat c"
    by (simp add: unsigned_ucast_eq take_bit_eq_mod)
  show "(ucast c :: u8) \<noteq> 8" "(ucast c :: u8) \<noteq> 127" "(ucast c :: u8) \<noteq> 9"
    "(ucast c :: u8) \<noteq> 10" "(ucast c :: u8) \<noteq> 11" "(ucast c :: u8) \<noteq> 12"
    "(ucast c :: u8) \<noteq> 13" "\<not> (ucast c :: u8) < 32"
    using u by (simp_all add: word_unat_eq_iff word_less_nat_alt v)
  have "unat (ucast c :: u16) = unat c"
    using u by (simp add: unsigned_ucast_eq take_bit_eq_mod)
  moreover have "unat (ucast (ucast c :: u8) :: u16) = unat (ucast c :: u8)"
    using u v by (simp add: unsigned_ucast_eq [of "ucast c :: u8"] take_bit_eq_mod)
  ultimately show "(ucast (ucast c :: u8) :: u16) = ucast c"
    using v by (simp add: word_unat_eq_iff)
qed

lemma switch_printable:
  assumes "printable c" "console_newline st = 0"
  shows "vt_write_switch (ucast c) st =
     (if console_cursor st = int WIDTH then
        map_option (\<lambda>buf. st\<lparr>console_buf := buf\<rparr>)
          (store (memmove_down (console_buf st) (WIDTH - 1)) (console_cursor st - 1) (ucast c))
      else
        map_option (\<lambda>buf. st\<lparr>console_cursor := console_cursor st + 1, console_buf := buf\<rparr>)
          (store (console_buf st) (console_cursor st) (ucast c)))"
  using assms printable_u8 [OF assms(1)]
  by (simp add: vt_write_switch_def Let_def split: option.splits)

lemma run_append:
  "run (xs @ ys) st = (case run xs st of None \<Rightarrow> None | Some st' \<Rightarrow> run ys st')"
  by (induction xs arbitrary: st) (simp_all split: option.splits)

lemma step_printable_fill:
  assumes "wf_state st" "printable c" "console_newline st = 0"
    and "console_cursor st = int k" "k < WIDTH"
  shows "\<exists>st'. step (vt_write_event vc c) st = Some st' \<and> wf_state st'
           \<and> console_buf st' = (console_buf st)[k := ucast c]
           \<and> console_cursor st' = int k + 1 \<and> console_newline st' = 0
           \<and> console_show st' = console_show st"
proof -
  let ?st1 = "st\<lparr>console_cursor := int k + 1, console_buf := (console_buf st)[k := ucast c]\<rparr>"
  have len: "length (console_buf st) = WIDTH" using assms(1) by (simp add: wf_state_def)
  have "vt_write_switch (ucast c) st = Some ?st1"
    using assms len
    by (simp add: switch_printable store_def printable_u8(9))
  then obtain l t where "vt_notifier_call (vc_num vc) VT_WRITE \<lparr>vp_vc = vc, vp_c = c\<rparr> st
             = Some (NOTIFY_OK, ?st1\<lparr>last_write_buf := l, trace := t\<rparr>)" "length l = WIDTH"
    using vt_write_call [of st vc "vc_num vc" c ?st1] assms(1) len by auto
  then show ?thesis using assms(3) len
    by (simp add: step_def vt_write_event_def wf_state_def)
qed

lemma memmove_store_last:
  assumes "length buf = WIDTH"
  shows "store (memmove_down buf (WIDTH - 1)) (int WIDTH - 1) v = Some (tl buf @ [v])"
proof -
  have a: "take (WIDTH - 1) (drop 1 buf) = tl buf"
    using assms by (simp add: drop_Suc)
  have b: "length (tl buf) = WIDTH - 1" using assms by simp
  have "memmove_down buf (WIDTH - 1) = tl buf @ drop (WIDTH - 1) buf"
    by (simp only: memmove_down_def a)
  moreover have "length (drop (WIDTH - 1) buf) = Suc 0" using assms by (simp add: WIDTH_def)
  then obtain x where "drop (WIDTH - 1) buf = [x]"
    by (metis length_Suc_conv length_0_conv)
  moreover have "nat (int WIDTH - 1) = WIDTH - 1" by (simp add: WIDTH_def)
  ultimately show ?thesis using b
    by (simp add: store_def list_update_append WIDTH_def)
qed

lemma step_printable_shift:
  assumes "wf_state st" "printable c" "console_newline st = 0"
    and "console_cursor st = int WIDTH"
  shows "\<exists>st'. step (vt_write_event vc c) st = Some st' \<and> wf_state st'
           \<and> console_buf st' = tl (console_buf st) @ [ucast c]
           \<and> console_cursor st' = int WIDTH \<and> console_newline st' = 0
           \<and> console_show st' = console_show st"
proof -
  let ?st1 = "st\<lparr>console_buf := tl (console_buf st) @ [ucast c]\<rparr>"
  have len: "length (console_buf st) = WIDTH" using assms(1) by (simp add: wf_state_def)
  have "vt_write_switch (ucast c) st = Some ?st1"
    using assms memmove_store_last [OF len, of "ucast c"]
    by (simp add: switch_printable printable_u8(9))
  then obtain l t where "vt_notifier_call (vc_num vc) VT_WRITE \<lparr>vp_vc = vc, vp_c = c\<rparr> st
             = Some (NOTIFY_OK, ?st1\<lparr>last_write_buf := l, trace := t\<rparr>)" "length l = WIDTH"
    using vt_write_call [of st vc "vc_num vc" c ?st1] assms(1) len by (auto simp: WIDTH_def)
  moreover have "Suc (WIDTH - Suc 0) = WIDTH" by (simp add: WIDTH_def)
  ultimately show ?thesis using assms(3,4) len
    by (simp add: step_def vt_write_event_def wf_state_def)
qed

lemma run_fill:
  assumes "wf_state st" "console_newline st = 0" "console_cursor st = 0"
    and "\<forall>c\<in>set cs. printable c" "length cs \<le> WIDTH"
  shows "\<exists>st'. run (map (vt_write_event vc) cs) st = Some st' \<and> wf_state st'
           \<and> console_buf st' = map ucast cs @ drop (length cs) (console_buf st)
           \<and> console_cursor st' = int (length cs) \<and> console_newline st' = 0
           \<and> console_show st' = console_show st"
  using assms(4,5)
proof (induction cs rule: rev_induct)
  case Nil
  then show ?case using assms(1-3) by simp
next
  case (snoc c cs)
  then obtain st1 where 1: "run (map (vt_write_event vc) cs) st = Some st1" "wf_state st1"
      "console_buf st1 = map ucast cs @ drop (length cs) (console_buf st)"
      "console_cursor st1 = int (length cs)" "console_newline st1 = 0"
      "console_show st1 = console_show st"
    by auto
  have k: "length cs < WIDTH" and p: "printable c" using snoc.prems by simp_all
  obtain st2 where 2: "step (vt_write_event vc c) st1 = Some st2" "wf_state st2"
      "console_buf st2 = (console_buf st1)[length cs := ucast c]"
      "console_cursor st2 = int (length cs) + 1" "console_newline st2 = 0"
      "console_show st2 = console_show st1"
    using step_printable_fill [OF 1(2) p 1(5) 1(4) k] by blast
  have len: "length (console_buf st) = WIDTH" using assms(1) by (simp add: wf_state_def)
  have "(map ucast cs @ drop (length cs) (console_buf st))[length cs := ucast c]
      = map ucast (cs @ [c]) @ drop (length (cs @ [c])) (console_buf st)"
    using k len by (simp add: list_update_append upd_conv_take_nth_drop drop_Suc [symmetric] Cons_nth_drop_Suc [symmetric])
  then show ?case using 1 2 by (simp add: run_append)
qed

text \<open>
  Claim C5, as the code has it. From a blank line with the cursor at 0 and the new-line
  flag clear, \<open>WIDTH + 1\<close> characters in the range from \<open>0x20\<close> to \<open>0xFF\<close> other than
  delete, written to the foreground console, leave the line equal to the input without
  its first character and the cursor at \<open>WIDTH\<close>. In general, with the cursor at \<open>WIDTH\<close>
  and the new-line flag clear, such a character drops the first cell, goes into the last
  one and leaves the cursor at \<open>WIDTH\<close>.
\<close>

theorem sliding_window:
  assumes "wf_state st" "console_buf st = replicate WIDTH 0" "console_cursor st = 0"
    and "console_newline st = 0"
    and "length cs = WIDTH + 1" "\<forall>c\<in>set cs. printable c"
    and "wf_state st2" "console_cursor st2 = int WIDTH" "console_newline st2 = 0" "printable c2"
  shows "(\<exists>st'. run (map (vt_write_event vc) cs) st = Some st'
            \<and> console_buf st' = map ucast (tl cs) \<and> console_cursor st' = int WIDTH)
       \<and> (\<exists>st''. step (vt_write_event vc c2) st2 = Some st''
            \<and> console_buf st'' = tl (console_buf st2) @ [ucast c2]
            \<and> console_cursor st'' = int WIDTH)"
proof
  obtain xs x where cs: "cs = xs @ [x]" "length xs = WIDTH"
    using assms(5) by (cases cs rule: rev_cases) auto
  have px: "\<forall>c\<in>set xs. printable c" "printable x" using assms(6) cs by simp_all
  obtain st1 where 1: "run (map (vt_write_event vc) xs) st = Some st1" "wf_state st1"
      "console_buf st1 = map ucast xs @ drop (length xs) (console_buf st)"
      "console_cursor st1 = int (length xs)" "console_newline st1 = 0"
    using run_fill [OF assms(1,4,3) px(1), of vc] cs(2) by auto
  obtain st' where 2: "step (vt_write_event vc x) st1 = Some st'"
      "console_buf st' = tl (console_buf st1) @ [ucast x]" "console_cursor st' = int WIDTH"
    using step_printable_shift [OF 1(2) px(2) 1(5), of vc] 1(4) cs(2) by auto
  have "xs \<noteq> []" using cs(2) by (auto simp: WIDTH_def)
  then have "tl (map ucast xs) @ [ucast x] = map ucast (tl cs)"
    by (simp add: cs(1) map_tl)
  moreover have "console_buf st1 = map ucast xs"
    using 1(3) cs(2) assms(2) by simp
  ultimately show "\<exists>st'. run (map (vt_write_event vc) cs) st = Some st'
            \<and> console_buf st' = map ucast (tl cs) \<and> console_cursor st' = int WIDTH"
    using 1(1) 2 by (simp add: cs(1) run_append)
next
  show "\<exists>st''. step (vt_write_event vc c2) st2 = Some st''
            \<and> console_buf st'' = tl (console_buf st2) @ [ucast c2]
            \<and> console_cursor st'' = int WIDTH"
    using step_printable_shift [OF assms(7,10,9,8), of vc] by blast
qed

lemma typing_state_facts:
  "wf_state typing_state" "console_buf typing_state = replicate WIDTH 0"
  "console_cursor typing_state = 0" "console_newline typing_state = 0"
  by (simp_all add: typing_state_def bound_state_eq wf_state_def)

lemma full_line_state_facts:
  "wf_state full_line_state" "console_cursor full_line_state = int WIDTH"
  "console_newline full_line_state = 0" "console_buf full_line_state = replicate WIDTH 0"
  by (simp_all add: full_line_state_def typing_state_def bound_state_eq wf_state_def WIDTH_def)

theorem sliding_window_witness:
  "wf_state typing_state \<and> console_buf typing_state = replicate WIDTH 0
   \<and> console_cursor typing_state = 0 \<and> console_newline typing_state = 0
   \<and> length chars_41 = WIDTH + 1 \<and> list_all printable chars_41
   \<and> wf_state full_line_state \<and> console_cursor full_line_state = int WIDTH
   \<and> console_newline full_line_state = 0 \<and> printable 0x6A
   \<and> (\<exists>st'. run (map (vt_write_event vc_100x25) chars_41) typing_state = Some st'
          \<and> console_buf st' = map of_nat [66..<106] \<and> console_cursor st' = int WIDTH)
   \<and> (\<exists>st''. step (vt_write_event vc_100x25 0x6A) full_line_state = Some st''
          \<and> console_buf st'' = replicate 39 0 @ [0x6A]
          \<and> console_cursor st'' = int WIDTH)"
proof -
  have l: "length chars_41 = WIDTH + 1" by code_simp
  have a: "list_all printable chars_41" by code_simp
  then have b: "\<forall>c\<in>set chars_41. printable c" by (simp add: list_all_iff)
  have p: "printable 0x6A" by code_simp
  have e: "map ucast (tl chars_41) = (map of_nat [66..<106] :: u16 list)" by code_simp
  have f: "tl (console_buf full_line_state) @ [ucast (0x6A :: u32)] = replicate 39 0 @ [0x6A :: u16]"
    unfolding full_line_state_facts(4) by code_simp
  show ?thesis
    using sliding_window [OF typing_state_facts l b full_line_state_facts(1-3) p, of vc_100x25]
      typing_state_facts l a full_line_state_facts(1-3) p
    unfolding e f by blast
qed

lemma step_line_terminator:
  assumes "wf_state st" "c = 10 \<or> c = 11 \<or> c = 12 \<or> c = 13"
  shows "\<exists>st'. step (vt_write_event vc c) st = Some st' \<and> wf_state st'
           \<and> console_buf st' = console_buf st
           \<and> console_cursor st' = console_cursor st \<and> console_newline st' = 1"
proof -
  let ?st1 = "st\<lparr>console_newline := 1\<rparr>"
  have len: "length (console_buf st) = WIDTH" using assms(1) by (simp add: wf_state_def)
  have "(ucast c :: u8) = 10 \<or> (ucast c :: u8) = 11 \<or> (ucast c :: u8) = 12
      \<or> (ucast c :: u8) = 13"
    using assms(2) by (elim disjE) simp_all
  then have "vt_write_switch (ucast c) st = Some ?st1"
    by (elim disjE) (simp_all add: vt_write_switch_def)
  moreover have "length (console_buf ?st1) = WIDTH" "last_write_buf ?st1 = last_write_buf st"
    using len by simp_all
  ultimately obtain l t where
    "vt_notifier_call (vc_num vc) VT_WRITE \<lparr>vp_vc = vc, vp_c = c\<rparr> st
       = Some (NOTIFY_OK, ?st1\<lparr>last_write_buf := l, trace := t\<rparr>)" "length l = WIDTH"
    using vt_write_call [OF assms(1) refl, of c ?st1 vc] by blast
  then show ?thesis using len
    by (simp add: step_def vt_write_event_def wf_state_def)
qed

lemma step_printable_newline:
  assumes "wf_state st" "printable c" "console_newline st \<noteq> 0"
  shows "\<exists>st'. step (vt_write_event vc c) st = Some st' \<and> wf_state st'
           \<and> console_buf st' = ucast c # replicate (WIDTH - 1) 0
           \<and> console_cursor st' = 1 \<and> console_newline st' = 0"
proof -
  let ?st1 = "st\<lparr>console_buf := ucast c # replicate (WIDTH - 1) 0,
                 console_cursor := 1, console_newline := 0\<rparr>"
  have len: "length (console_buf st) = WIDTH" using assms(1) by (simp add: wf_state_def)
  have "WIDTH = Suc (WIDTH - 1)" by (simp add: WIDTH_def)
  then have "replicate WIDTH (0::u16) = 0 # replicate (WIDTH - 1) 0"
    by (metis replicate_Suc)
  then have r: "(replicate WIDTH (0::u16))[0 := ucast c] = ucast c # replicate (WIDTH - 1) 0"
    by simp
  have "vt_write_switch (ucast c) st = Some ?st1"
    using assms(3) len printable_u8 [OF assms(2)] r
    by (simp add: vt_write_switch_def Let_def store_def memset_all_def)
      (simp add: WIDTH_def)
  moreover have "length (console_buf ?st1) = WIDTH" "last_write_buf ?st1 = last_write_buf st"
    by (simp_all add: WIDTH_def)
  ultimately obtain l t where
    "vt_notifier_call (vc_num vc) VT_WRITE \<lparr>vp_vc = vc, vp_c = c\<rparr> st
       = Some (NOTIFY_OK, ?st1\<lparr>last_write_buf := l, trace := t\<rparr>)" "length l = WIDTH"
    using vt_write_call [OF assms(1) refl, of c ?st1 vc] by blast
  moreover have "Suc (WIDTH - Suc 0) = WIDTH" by (simp add: WIDTH_def)
  ultimately show ?thesis
    by (simp add: step_def vt_write_event_def wf_state_def)
qed

text \<open>
  Claim C6. From a blank line with the cursor at 0 and the new-line flag clear, the
  characters \<open>A\<close>, \<open>B\<close> and new line leave the line as \<open>AB\<close> followed by blanks, the cursor
  at 2 and the flag set: the new line itself clears nothing. The character \<open>C\<close> after
  them clears the line and leaves \<open>C\<close> in cell 0, blanks in the other \<open>WIDTH - 1\<close> cells,
  the cursor at 1 and the flag clear.
\<close>

theorem newline_clears_lazily:
  assumes "wf_state st" "console_buf st = replicate WIDTH 0" "console_cursor st = 0"
    and "console_newline st = 0"
  shows "\<exists>st3 st4.
           run (map (vt_write_event vc) [0x41, 0x42, 0x0A]) st = Some st3
           \<and> console_buf st3 = [0x41, 0x42] @ replicate (WIDTH - 2) 0
           \<and> console_cursor st3 = 2 \<and> console_newline st3 = 1
           \<and> run (map (vt_write_event vc) [0x41, 0x42, 0x0A, 0x43]) st = Some st4
           \<and> console_buf st4 = 0x43 # replicate (WIDTH - 1) 0
           \<and> console_cursor st4 = 1 \<and> console_newline st4 = 0"
proof -
  have pa: "\<forall>c\<in>set [0x41, 0x42 :: u32]. printable c" and pc: "printable 0x43"
    by (simp_all add: printable_def)
  have la: "length [0x41, 0x42 :: u32] \<le> WIDTH" by (simp add: WIDTH_def)
  obtain st2 where 2: "run (map (vt_write_event vc) [0x41, 0x42]) st = Some st2" "wf_state st2"
      "console_buf st2 = map ucast [0x41, 0x42 :: u32]
         @ drop (length [0x41, 0x42 :: u32]) (console_buf st)"
      "console_cursor st2 = int (length [0x41, 0x42 :: u32])"
    using run_fill [OF assms(1,4,3) pa la, of vc] by blast
  obtain st3 where 3: "step (vt_write_event vc 0x0A) st2 = Some st3" "wf_state st3"
      "console_buf st3 = console_buf st2" "console_cursor st3 = console_cursor st2"
      "console_newline st3 = 1"
    using step_line_terminator [OF 2(2), of "0x0A" vc] by auto
  obtain st4 where 4: "step (vt_write_event vc 0x43) st3 = Some st4"
      "console_buf st4 = ucast (0x43 :: u32) # replicate (WIDTH - 1) 0"
      "console_cursor st4 = 1" "console_newline st4 = 0"
    using step_printable_newline [OF 3(2) pc, of vc] 3(5) by auto
  have a: "run (map (vt_write_event vc) [0x41, 0x42, 0x0A]) st = Some st3"
    using 2(1) 3(1) run_append [of "map (vt_write_event vc) [0x41, 0x42]" "[vt_write_event vc 0x0A]" st]
    by simp
  have b: "run (map (vt_write_event vc) [0x41, 0x42, 0x0A, 0x43]) st = Some st4"
    using a 4(1) run_append [of "map (vt_write_event vc) [0x41, 0x42, 0x0A]" "[vt_write_event vc 0x43]" st]
    by simp
  have c3: "console_buf st3 = [0x41, 0x42] @ replicate (WIDTH - 2) 0"
    using 3(3) 2(3) assms(2) by simp
  have d3: "console_cursor st3 = 2" using 3(4) 2(4) by simp
  have c4: "console_buf st4 = 0x43 # replicate (WIDTH - 1) 0" using 4(2) by simp
  show ?thesis using a b c3 d3 3(5) c4 4(3,4) by blast
qed

theorem newline_clears_lazily_witness:
  "wf_state typing_state \<and> console_buf typing_state = replicate WIDTH 0
   \<and> console_cursor typing_state = 0 \<and> console_newline typing_state = 0
   \<and> (\<exists>st3 st4.
           run (map (vt_write_event vc_100x25) [0x41, 0x42, 0x0A]) typing_state = Some st3
           \<and> console_buf st3 = [0x41, 0x42] @ replicate (WIDTH - 2) 0
           \<and> console_cursor st3 = 2 \<and> console_newline st3 = 1
           \<and> run (map (vt_write_event vc_100x25) [0x41, 0x42, 0x0A, 0x43]) typing_state = Some st4
           \<and> console_buf st4 = 0x43 # replicate (WIDTH - 1) 0
           \<and> console_cursor st4 = 1 \<and> console_newline st4 = 0)"
  using newline_clears_lazily [OF typing_state_facts, of vc_100x25] typing_state_facts
  by blast

text \<open>
  With the new-line flag set the cursor at \<open>WIDTH\<close> does not make a printable character
  shift the line: 40 characters, a new line and the character \<open>j\<close> leave \<open>j\<close> in cell 0 of
  a cleared line and the cursor at 1.
\<close>

theorem newline_flag_stops_the_shift:
  "map_option console_cursor
     (run (map (vt_write_event vc_100x25) (take 40 chars_41 @ [0x0A])) typing_state) = Some 40
   \<and> map_option console_newline
     (run (map (vt_write_event vc_100x25) (take 40 chars_41 @ [0x0A])) typing_state) = Some 1
   \<and> map_option console_cursor
     (run (map (vt_write_event vc_100x25) (take 40 chars_41 @ [0x0A, 0x6A])) typing_state) = Some 1
   \<and> map_option console_buf
     (run (map (vt_write_event vc_100x25) (take 40 chars_41 @ [0x0A, 0x6A])) typing_state)
     = Some (0x6A # replicate (WIDTH - 1) 0)"
proof -
  let ?cs = "take 40 chars_41"
  have l: "length ?cs = 40" by code_simp
  have "list_all printable ?cs" by code_simp
  then have p: "\<forall>c\<in>set ?cs. printable c" by (simp add: list_all_iff)
  have lw: "length ?cs \<le> WIDTH" using l by (simp add: WIDTH_def)
  obtain st1 where 1: "run (map (vt_write_event vc_100x25) ?cs) typing_state = Some st1"
      "wf_state st1" "console_cursor st1 = int (length ?cs)"
    using run_fill [OF typing_state_facts(1,4,3) p lw, of vc_100x25] by blast
  obtain st2 where 2: "step (vt_write_event vc_100x25 0x0A) st1 = Some st2" "wf_state st2"
      "console_cursor st2 = console_cursor st1" "console_newline st2 = 1"
    using step_line_terminator [OF 1(2), of "0x0A" vc_100x25] by auto
  have pj: "printable 0x6A" by (simp add: printable_def)
  obtain st3 where 3: "step (vt_write_event vc_100x25 0x6A) st2 = Some st3"
      "console_buf st3 = ucast (0x6A :: u32) # replicate (WIDTH - 1) 0"
      "console_cursor st3 = 1"
    using step_printable_newline [OF 2(2) pj, of vc_100x25] 2(4) by auto
  have a: "run (map (vt_write_event vc_100x25) (?cs @ [0x0A])) typing_state = Some st2"
    using 1(1) 2(1) by (simp add: run_append)
  have b: "run (map (vt_write_event vc_100x25) (?cs @ [0x0A, 0x6A])) typing_state = Some st3"
    using 1(1) 2(1) 3(1) by (simp add: run_append)
  have "console_cursor st2 = 40" using 2(3) 1(3) l by simp
  moreover have "console_buf st3 = 0x6A # replicate (WIDTH - 1) 0" using 3(2) by simp
  ultimately show ?thesis unfolding a b using 2(4) 3(3) by simp
qed

section \<open>The cursor stays inside the line\<close>

lemma length_memmove_down:
  "length a = WIDTH \<Longrightarrow> length (memmove_down a (WIDTH - 1)) = WIDTH"
  by (simp add: memmove_down_def WIDTH_def)

lemma switch_inv:
  assumes "cursor_inv st"
  shows "\<exists>st1. vt_write_switch c st = Some st1 \<and> cursor_inv st1
           \<and> last_write_buf st1 = last_write_buf st \<and> console_show st1 = console_show st
           \<and> braille_co st1 = braille_co st \<and> trace st1 = trace st"
proof -
  have len: "length (console_buf st) = WIDTH" "length (last_write_buf st) = WIDTH"
    and cur: "0 \<le> console_cursor st" "console_cursor st \<le> int WIDTH"
    using assms by (simp_all add: cursor_inv_def wf_state_def)
  show ?thesis
  proof (cases "c = 8 \<or> c = 127")
    case True
    then show ?thesis using len cur
      by (auto simp add: vt_write_switch_def store_def cursor_inv_def wf_state_def)
  next
    case False
    note bs = this
    show ?thesis
    proof (cases "c = 10 \<or> c = 11 \<or> c = 12 \<or> c = 13")
      case True
      then show ?thesis using bs len cur
        by (simp add: vt_write_switch_def cursor_inv_def wf_state_def)
    next
      case False
      define c' where "c' = (if c = 9 then 0x20 else c)"
      show ?thesis
      proof (cases "c' < 32")
        case True
        then show ?thesis using bs False assms
          by (simp add: vt_write_switch_def c'_def)
      next
        case pr: False
        define st1 where "st1 = (if console_newline st \<noteq> 0 then
                        st\<lparr>console_buf := memset_all (console_buf st) 0,
                           console_cursor := 0,
                           console_newline := 0\<rparr>
                      else st)"
        have 1: "length (console_buf st1) = WIDTH" "0 \<le> console_cursor st1"
          "console_cursor st1 \<le> int WIDTH" "last_write_buf st1 = last_write_buf st"
          "console_show st1 = console_show st" "braille_co st1 = braille_co st"
          "trace st1 = trace st"
          using len cur by (simp_all add: st1_def memset_all_def)
        define st2 where "st2 = (if console_cursor st1 = int WIDTH then
                        st1\<lparr>console_buf := memmove_down (console_buf st1) (WIDTH - 1)\<rparr>
                      else st1\<lparr>console_cursor := console_cursor st1 + 1\<rparr>)"
        have 2: "length (console_buf st2) = WIDTH" "1 \<le> console_cursor st2"
          "console_cursor st2 \<le> int WIDTH" "last_write_buf st2 = last_write_buf st"
          "console_show st2 = console_show st" "braille_co st2 = braille_co st"
          "trace st2 = trace st"
          using 1 by (auto simp add: st2_def memmove_down_def WIDTH_def)
        have "vt_write_switch c st =
           (case store (console_buf st2) (console_cursor st2 - 1) (ucast c') of
                 None \<Rightarrow> None
               | Some buf \<Rightarrow> Some (st2\<lparr>console_buf := buf\<rparr>))"
          using bs False pr unfolding c'_def st2_def st1_def
          by (simp add: vt_write_switch_def Let_def)
        then show ?thesis using 2 len
          by (simp add: store_def cursor_inv_def wf_state_def)
      qed
    qed
  qed
qed

lemma cursor_inv_fields:
  assumes "cursor_inv st" "console_buf st' = console_buf st"
    and "console_cursor st' = console_cursor st" "length (last_write_buf st') = WIDTH"
  shows "cursor_inv st'"
  using assms by (simp add: cursor_inv_def wf_state_def)

lemma braille_write_inv:
  assumes "cursor_inv st"
  shows "\<exists>st'. braille_write (console_buf st) st = Some st' \<and> cursor_inv st'
           \<and> console_show st' = console_show st \<and> braille_co st' = braille_co st"
proof -
  have w: "wf_state st" "length (console_buf st) = WIDTH"
    using assms by (simp_all add: cursor_inv_def wf_state_def)
  obtain l t where "braille_write (console_buf st) st
      = Some (st\<lparr>last_write_buf := l, trace := t\<rparr>)" "length l = WIDTH"
    using braille_write_total [OF w] by blast
  moreover from this have "cursor_inv (st\<lparr>last_write_buf := l, trace := t\<rparr>)"
    using assms by (simp add: cursor_inv_def wf_state_def)
  ultimately show ?thesis by simp
qed

lemma cursor_inv_refresh_vc: "cursor_inv st \<Longrightarrow> cursor_inv (refresh_vc vc st)"
  by (simp add: cursor_inv_def wf_state_def refresh_vc_def emit_def)

lemma cursor_inv_beep: "cursor_inv st \<Longrightarrow> cursor_inv (beep f st)"
  by (simp add: cursor_inv_def wf_state_def beep_def emit_def)

lemma cursor_inv_vc_follow_cursor: "cursor_inv st \<Longrightarrow> cursor_inv (vc_follow_cursor vc st)"
  by (simp add: cursor_inv_def wf_state_def vc_follow_cursor_def)

lemma vt_notifier_call_inv:
  assumes "cursor_inv st"
  shows "\<exists>st'. vt_notifier_call fg code param st = Some (NOTIFY_OK, st') \<and> cursor_inv st'"
proof (cases code)
  case VT_WRITE
  show ?thesis
  proof (cases "vc_num (vp_vc param) \<noteq> fg")
    case True
    then show ?thesis using assms VT_WRITE by (simp add: vt_notifier_call_def)
  next
    case False
    obtain st1 where 1: "vt_write_switch (ucast (vp_c param)) st = Some st1" "cursor_inv st1"
      using switch_inv [OF assms] by blast
    show ?thesis
    proof (cases "console_show st1 \<noteq> 0")
      case True
      obtain st' where "braille_write (console_buf st1) st1 = Some st'" "cursor_inv st'"
        using braille_write_inv [OF 1(2)] by blast
      then show ?thesis using VT_WRITE False 1 True by (simp add: vt_notifier_call_def)
    next
      case show0: False
      then show ?thesis using VT_WRITE False 1 cursor_inv_refresh_vc [OF 1(2)]
        by (simp add: vt_notifier_call_def)
    qed
  qed
next
  case VT_UPDATE
  show ?thesis
  proof (cases "console_show st \<noteq> 0 \<and> vc_num (vp_vc param) \<noteq> lastVC st")
    case True
    let ?st1 = "st\<lparr>lastVC := vc_num (vp_vc param),
                   console_buf := memset_all (console_buf st) 0, console_cursor := 0\<rparr>"
    have "cursor_inv ?st1"
      using assms by (simp add: cursor_inv_def wf_state_def memset_all_def)
    then obtain st' where "braille_write (console_buf ?st1) ?st1 = Some st'" "cursor_inv st'"
      using braille_write_inv by blast
    then show ?thesis using VT_UPDATE True by (simp add: vt_notifier_call_def)
  next
    case False
    then show ?thesis using VT_UPDATE assms cursor_inv_refresh_vc [OF assms]
      by (auto simp add: vt_notifier_call_def Let_def)
  qed
qed (use assms in \<open>simp_all add: vt_notifier_call_def\<close>)

lemma handle_vc_key_inv:
  assumes "cursor_inv st"
  shows "\<exists>r st'. handle_vc_key param vc st = Some (r, st') \<and> cursor_inv st'"
proof (cases "kp_value param")
  case KEY_INSERT
  let ?st1 = "(beep BEEP_MED st)\<lparr>console_show := 1, lastVC := - 1\<rparr>"
  have "cursor_inv ?st1"
    using cursor_inv_beep [OF assms, of BEEP_MED] by (simp add: cursor_inv_def wf_state_def)
  then obtain st' where "braille_write (console_buf ?st1) ?st1 = Some st'" "cursor_inv st'"
    using braille_write_inv by blast
  then show ?thesis using KEY_INSERT cursor_inv_refresh_vc [of st']
    by (simp add: handle_vc_key_def)
next
  case KEY_LEFT
  then show ?thesis using assms
    by (simp add: handle_vc_key_def Let_def cursor_inv_def wf_state_def refresh_vc_def beep_def emit_def)
next
  case KEY_RIGHT
  then show ?thesis using assms
    by (simp add: handle_vc_key_def Let_def cursor_inv_def wf_state_def refresh_vc_def beep_def emit_def)
next
  case KEY_DOWN
  then show ?thesis using assms
    by (simp add: handle_vc_key_def Let_def cursor_inv_def wf_state_def refresh_vc_def beep_def emit_def)
next
  case KEY_UP
  then show ?thesis using assms
    by (simp add: handle_vc_key_def Let_def cursor_inv_def wf_state_def refresh_vc_def beep_def emit_def)
next
  case KEY_HOME
  then show ?thesis using assms
    by (simp add: handle_vc_key_def cursor_inv_def wf_state_def refresh_vc_def emit_def
        vc_follow_cursor_def)
next
  case KEY_PAGEUP
  then show ?thesis using assms
    by (simp add: handle_vc_key_def cursor_inv_def wf_state_def refresh_vc_def emit_def)
next
  case KEY_PAGEDOWN
  then show ?thesis using assms
    by (simp add: handle_vc_key_def cursor_inv_def wf_state_def refresh_vc_def emit_def)
next
  case (KEY_OTHER n)
  then show ?thesis using assms
    by (simp add: handle_vc_key_def cursor_inv_def wf_state_def refresh_vc_def emit_def)
qed

lemma keyboard_notifier_call_inv:
  assumes "cursor_inv st"
  shows "\<exists>r st'. keyboard_notifier_call code param st = Some (r, st') \<and> cursor_inv st'"
proof (cases "kp_down param = 0")
  case True
  then show ?thesis using assms by (simp add: keyboard_notifier_call_def)
next
  case False
  show ?thesis
  proof (cases code)
    case KBD_KEYCODE
    show ?thesis
    proof (cases "console_show st \<noteq> 0")
      case True
      have "cursor_inv (snd (handle_console_key param (kp_vc param) st))"
        using assms
        by (simp add: handle_console_key_def Let_def cursor_inv_def wf_state_def refresh_vc_def
            beep_def emit_def vc_follow_cursor_def)
      then show ?thesis using KBD_KEYCODE False True
        by (cases "handle_console_key param (kp_vc param) st")
          (simp add: keyboard_notifier_call_def)
    next
      case show0: False
      then show ?thesis using KBD_KEYCODE False handle_vc_key_inv [OF assms]
        by (simp add: keyboard_notifier_call_def)
    qed
  next
    case KBD_POST_KEYSYM
    then show ?thesis using False assms cursor_inv_beep [OF assms]
      by (simp add: keyboard_notifier_call_def Let_def)
  qed (use False assms in \<open>simp_all add: keyboard_notifier_call_def\<close>)
qed

lemma step_inv:
  assumes "cursor_inv st"
  shows "\<exists>st'. step e st = Some st' \<and> cursor_inv st'"
proof (cases e)
  case (Keyboard code param)
  then show ?thesis using keyboard_notifier_call_inv [OF assms, of code param]
    by (auto simp add: step_def)
next
  case (Vt fg code param)
  then show ?thesis using vt_notifier_call_inv [OF assms, of fg code param]
    by (auto simp add: step_def)
qed

lemma run_inv:
  assumes "cursor_inv st"
  shows "\<exists>st'. run evs st = Some st' \<and> cursor_inv st'"
  using assms
proof (induction evs arbitrary: st)
  case Nil
  then show ?case by simp
next
  case (Cons e evs)
  obtain st1 where "step e st = Some st1" "cursor_inv st1"
    using step_inv [OF Cons.prems] by blast
  then show ?case using Cons.IH [of st1] by simp
qed

lemma cursor_inv_init_state: "cursor_inv (init_state snd_on cs)"
  by (simp add: cursor_inv_def wf_state_def init_state_def)

text \<open>
  Claim C9. The initial state has the cursor between 0 and \<open>WIDTH\<close> and both arrays at
  their size. From any such state the inner switch of the \<open>VT_WRITE\<close> case and the whole
  handler return a state (\<open>Some\<close>: the stores at \<open>console_cursor\<close> after a backspace and
  at \<open>console_cursor - 1\<close> after a printable character hit the array) that is such a
  state again, and so does every sequence of keyboard and terminal notifications.
\<close>

theorem cursor_stays_in_line:
  assumes "cursor_inv st"
  shows "cursor_inv (init_state snd_on cs)
       \<and> (\<exists>st1. vt_write_switch c st = Some st1 \<and> cursor_inv st1)
       \<and> (\<exists>st2. vt_notifier_call fg VT_WRITE param st = Some (NOTIFY_OK, st2) \<and> cursor_inv st2)
       \<and> (\<exists>st'. run evs st = Some st' \<and> cursor_inv st')"
  using cursor_inv_init_state [of snd_on cs] switch_inv [OF assms, of c]
    vt_notifier_call_inv [OF assms, of fg VT_WRITE param] run_inv [OF assms, of evs]
  by blast

lemma cursor_inv_full_line_state: "cursor_inv full_line_state"
  using full_line_state_facts by (simp add: cursor_inv_def)

theorem cursor_stays_in_line_witness:
  "cursor_inv full_line_state
   \<and> cursor_inv (init_state False (\<lambda>_. console0))
   \<and> (\<exists>st1. vt_write_switch 0x6A full_line_state = Some st1 \<and> cursor_inv st1)
   \<and> (\<exists>st2. vt_notifier_call 1 VT_WRITE \<lparr>vp_vc = vc_100x25, vp_c = 8\<rparr> full_line_state
          = Some (NOTIFY_OK, st2) \<and> cursor_inv st2)
   \<and> (\<exists>st'. run [vt_write_event vc_100x25 8, vt_write_event vc_100x25 0x41] full_line_state
          = Some st' \<and> cursor_inv st')"
  using cursor_stays_in_line [OF cursor_inv_full_line_state] cursor_inv_full_line_state
  by blast

section \<open>Switching between following and browsing\<close>

lemma transport_writes_simps:
  "transport_writes (refresh_vc vc st) = transport_writes st"
  "transport_writes (beep f st) = transport_writes st"
  "transport_writes (vc_follow_cursor vc st) = transport_writes st"
  "transport_writes (emit (Write co bytes) st) = transport_writes st @ [Write co bytes]"
  by (simp_all add: transport_writes_def refresh_vc_def beep_def emit_def vc_follow_cursor_def)

lemma trigger_enters_browsing:
  assumes "cursor_inv st" "console_show st \<noteq> 0" "is_trigger e"
  shows "\<exists>st'. step e st = Some st' \<and> cursor_inv st' \<and> console_show st' = 0
           \<and> console_buf st' = console_buf st \<and> last_write_buf st' = last_write_buf st
           \<and> braille_co st' = braille_co st \<and> transport_writes st' = transport_writes st"
proof -
  obtain param where e: "e = Keyboard KBD_KEYCODE param" "kp_down param \<noteq> 0"
      "kp_value param = KEY_INSERT"
    using assms(3) by (cases e) auto
  let ?st' = "refresh_vc (kp_vc param) (vc_follow_cursor (kp_vc param)
                (beep BEEP_HIGH (st\<lparr>console_show := 0\<rparr>)))"
  have "step e st = Some ?st'"
    using e assms(2)
    by (simp add: step_def keyboard_notifier_call_def handle_console_key_def BRAILLE_KEY_def
        Let_def)
  moreover have "cursor_inv ?st'"
    using assms(1)
    by (simp add: cursor_inv_def wf_state_def refresh_vc_def vc_follow_cursor_def beep_def emit_def)
  moreover have "console_show ?st' = 0" "console_buf ?st' = console_buf st"
    "last_write_buf ?st' = last_write_buf st" "braille_co ?st' = braille_co st"
    by (simp_all add: refresh_vc_def vc_follow_cursor_def beep_def emit_def)
  moreover have "transport_writes ?st' = transport_writes st"
    by (simp add: transport_writes_simps) (simp add: transport_writes_def)
  ultimately show ?thesis by blast
qed

lemma trigger_leaves_browsing:
  assumes "cursor_inv st" "console_show st = 0" "is_trigger e" "braille_co st = Some co"
  shows "\<exists>st'. step e st = Some st' \<and> cursor_inv st' \<and> console_show st' = 1 \<and> lastVC st' = - 1
           \<and> console_buf st' = console_buf st \<and> last_write_buf st' = console_buf st
           \<and> transport_writes st' = transport_writes st @
               (if console_buf st = last_write_buf st then []
                else [Write co (frame_of (console_buf st))])"
proof -
  obtain param where e: "e = Keyboard KBD_KEYCODE param" "kp_down param \<noteq> 0"
      "kp_value param = KEY_INSERT"
    using assms(3) by (cases e) auto
  let ?st1 = "(beep BEEP_MED st)\<lparr>console_show := 1, lastVC := - 1\<rparr>"
  have f1: "wf_state ?st1" "braille_co ?st1 = Some co" "length (console_buf ?st1) = WIDTH"
    "console_buf ?st1 = console_buf st" "last_write_buf ?st1 = last_write_buf st"
    "transport_writes ?st1 = transport_writes st" "console_cursor ?st1 = console_cursor st"
    using assms(1,4)
    by (simp_all add: cursor_inv_def wf_state_def beep_def emit_def transport_writes_def)
  define st2 where "st2 = (if console_buf st = last_write_buf st then ?st1
     else emit (Write co (frame_of (console_buf st))) (?st1\<lparr>last_write_buf := console_buf st\<rparr>))"
  have bw: "braille_write (console_buf ?st1) ?st1 = Some st2"
  proof (cases "console_buf st = last_write_buf st")
    case True
    then show ?thesis
      using braille_write_same [OF f1(1,3)] f1(4,5) by (simp add: st2_def)
  next
    case False
    then show ?thesis
      using braille_write_new [OF f1(1,2,3)] f1(4,5) by (simp add: st2_def)
  qed
  have f2: "console_show st2 = 1" "lastVC st2 = - 1" "console_buf st2 = console_buf st"
    "last_write_buf st2 = console_buf st" "console_cursor st2 = console_cursor st"
    "transport_writes st2 = transport_writes st @
               (if console_buf st = last_write_buf st then []
                else [Write co (frame_of (console_buf st))])"
    using f1(4-7) by (auto simp add: st2_def emit_def beep_def transport_writes_def)
  have "step e st = Some (refresh_vc (kp_vc param) st2)"
    using e assms(2) bw
    by (simp add: step_def keyboard_notifier_call_def handle_vc_key_def Let_def)
  moreover have "cursor_inv (refresh_vc (kp_vc param) st2)"
    using assms(1) f2(3,4,5)
    by (simp add: cursor_inv_def wf_state_def refresh_vc_def emit_def)
  ultimately show ?thesis using f2
    by (simp add: transport_writes_simps) (simp add: refresh_vc_def emit_def)
qed

lemma vt_notifier_call_browsing:
  assumes "cursor_inv st" "console_show st = 0"
  shows "\<exists>st'. vt_notifier_call fg code param st = Some (NOTIFY_OK, st') \<and> cursor_inv st'
           \<and> console_show st' = 0 \<and> last_write_buf st' = last_write_buf st
           \<and> braille_co st' = braille_co st \<and> transport_writes st' = transport_writes st"
proof (cases code)
  case VT_WRITE
  show ?thesis
  proof (cases "vc_num (vp_vc param) \<noteq> fg")
    case True
    then show ?thesis using assms VT_WRITE by (simp add: vt_notifier_call_def)
  next
    case False
    obtain st1 where 1: "vt_write_switch (ucast (vp_c param)) st = Some st1" "cursor_inv st1"
        "last_write_buf st1 = last_write_buf st" "console_show st1 = console_show st"
        "braille_co st1 = braille_co st" "trace st1 = trace st"
      using switch_inv [OF assms(1)] by blast
    have "vt_notifier_call fg code param st = Some (NOTIFY_OK, refresh_vc (vp_vc param) st1)"
      using VT_WRITE False 1(1,4) assms(2) by (simp add: vt_notifier_call_def)
    moreover have "console_show (refresh_vc (vp_vc param) st1) = 0"
      "last_write_buf (refresh_vc (vp_vc param) st1) = last_write_buf st"
      "braille_co (refresh_vc (vp_vc param) st1) = braille_co st"
      using 1 assms(2) by (simp_all add: refresh_vc_def emit_def)
    moreover have "transport_writes (refresh_vc (vp_vc param) st1) = transport_writes st"
      using 1(6) by (simp add: transport_writes_simps) (simp add: transport_writes_def)
    ultimately show ?thesis using cursor_inv_refresh_vc [OF 1(2)] by simp
  qed
next
  case VT_UPDATE
  have "vt_notifier_call fg code param st = Some (NOTIFY_OK, refresh_vc (vp_vc param) st)"
    using VT_UPDATE assms(2) by (simp add: vt_notifier_call_def)
  moreover have "console_show (refresh_vc (vp_vc param) st) = 0"
    "last_write_buf (refresh_vc (vp_vc param) st) = last_write_buf st"
    "braille_co (refresh_vc (vp_vc param) st) = braille_co st"
    using assms(2) by (simp_all add: refresh_vc_def emit_def)
  ultimately show ?thesis using cursor_inv_refresh_vc [OF assms(1)]
    by (simp add: transport_writes_simps)
qed (use assms in \<open>simp_all add: vt_notifier_call_def\<close>)

lemma handle_vc_key_browsing:
  assumes "cursor_inv st" "console_show st = 0" "kp_value param \<noteq> KEY_INSERT"
  shows "\<exists>r st'. handle_vc_key param vc st = Some (r, st') \<and> cursor_inv st'
           \<and> console_show st' = 0 \<and> last_write_buf st' = last_write_buf st
           \<and> braille_co st' = braille_co st \<and> transport_writes st' = transport_writes st"
  using assms
  by (cases "kp_value param")
    (simp_all add: handle_vc_key_def Let_def cursor_inv_def wf_state_def refresh_vc_def beep_def
      emit_def vc_follow_cursor_def transport_writes_def)

lemma step_browsing:
  assumes "cursor_inv st" "console_show st = 0" "\<not> is_trigger e"
  shows "\<exists>st'. step e st = Some st' \<and> cursor_inv st'
           \<and> console_show st' = 0 \<and> last_write_buf st' = last_write_buf st
           \<and> braille_co st' = braille_co st \<and> transport_writes st' = transport_writes st"
proof (cases e)
  case (Vt fg code param)
  then show ?thesis using vt_notifier_call_browsing [OF assms(1,2), of fg code param]
    by (auto simp add: step_def)
next
  case (Keyboard code param)
  show ?thesis
  proof (cases "kp_down param = 0")
    case True
    then show ?thesis using Keyboard assms(1,2)
      by (simp add: step_def keyboard_notifier_call_def)
  next
    case False
    show ?thesis
    proof (cases code)
      case KBD_KEYCODE
      then have "kp_value param \<noteq> KEY_INSERT" using assms(3) Keyboard False by simp
      then show ?thesis
        using handle_vc_key_browsing [OF assms(1,2), of param "kp_vc param"] Keyboard False
          KBD_KEYCODE assms(2)
        by (auto simp add: step_def keyboard_notifier_call_def)
    next
      case KBD_POST_KEYSYM
      then show ?thesis using Keyboard False assms(1,2)
        by (simp add: step_def keyboard_notifier_call_def Let_def cursor_inv_def wf_state_def
            beep_def emit_def transport_writes_def)
    qed (use Keyboard False assms(1,2) in \<open>simp_all add: step_def keyboard_notifier_call_def\<close>)
  qed
qed

lemma run_browsing:
  assumes "cursor_inv st" "console_show st = 0" "\<forall>e\<in>set evs. \<not> is_trigger e"
  shows "\<exists>st'. run evs st = Some st' \<and> cursor_inv st'
           \<and> console_show st' = 0 \<and> last_write_buf st' = last_write_buf st
           \<and> braille_co st' = braille_co st \<and> transport_writes st' = transport_writes st"
  using assms
proof (induction evs arbitrary: st)
  case Nil
  then show ?case by simp
next
  case (Cons e evs)
  obtain st1 where 1: "step e st = Some st1" "cursor_inv st1" "console_show st1 = 0"
      "last_write_buf st1 = last_write_buf st" "braille_co st1 = braille_co st"
      "transport_writes st1 = transport_writes st"
    using step_browsing [OF Cons.prems(1,2), of e] Cons.prems(3) by auto
  obtain st' where "run evs st1 = Some st'" "cursor_inv st'" "console_show st' = 0"
      "last_write_buf st' = last_write_buf st1" "braille_co st' = braille_co st1"
      "transport_writes st' = transport_writes st1"
    using Cons.IH [OF 1(2,3)] Cons.prems(3) by auto
  then show ?case using 1 by simp
qed

lemma mode_round_trip:
  assumes "cursor_inv st" "braille_co st = Some co" "console_show st \<noteq> 0"
    and "is_trigger e1" "is_trigger e2" "\<forall>e\<in>set evs. \<not> is_trigger e"
  shows "\<exists>stb st'. run (e1 # evs) st = Some stb \<and> console_show stb = 0
           \<and> run (e1 # evs @ [e2]) st = Some st'
           \<and> console_show st' = 1 \<and> lastVC st' = - 1
           \<and> console_buf st' = console_buf stb
           \<and> last_write_buf st' = console_buf stb
           \<and> transport_writes st' = transport_writes st @
               (if console_buf stb = last_write_buf st then []
                else [Write co (frame_of (console_buf stb))])"
proof -
  obtain st1 where 1: "step e1 st = Some st1" "cursor_inv st1" "console_show st1 = 0"
      "last_write_buf st1 = last_write_buf st" "braille_co st1 = braille_co st"
      "transport_writes st1 = transport_writes st"
    using trigger_enters_browsing [OF assms(1,3,4)] by blast
  obtain stb where b: "run evs st1 = Some stb" "cursor_inv stb" "console_show stb = 0"
      "last_write_buf stb = last_write_buf st1" "braille_co stb = braille_co st1"
      "transport_writes stb = transport_writes st1"
    using run_browsing [OF 1(2,3) assms(6)] by blast
  have co: "braille_co stb = Some co" using b(5) 1(5) assms(2) by simp
  obtain st' where 2: "step e2 stb = Some st'" "console_show st' = 1" "lastVC st' = - 1"
      "console_buf st' = console_buf stb" "last_write_buf st' = console_buf stb"
      "transport_writes st' = transport_writes stb @
               (if console_buf stb = last_write_buf stb then []
                else [Write co (frame_of (console_buf stb))])"
    using trigger_leaves_browsing [OF b(2,3) assms(5) co] by blast
  have r1: "run (e1 # evs) st = Some stb" using 1(1) b(1) by simp
  have "run ((e1 # evs) @ [e2]) st = Some st'"
    using r1 2(1) by (simp only: run_append) simp
  then have r2: "run (e1 # evs @ [e2]) st = Some st'" by simp
  show ?thesis using r1 r2 b(3) 2(2-6) b(4,6) 1(4,6) by simp
qed

text \<open>
  Claim C2, as the code has it. From following mode with a device bound, a press of the
  trigger key, any notifications that are not a press of the trigger key, and a second
  press end in following mode with \<open>lastVC\<close> reset. The second press hands the line as
  it is then to \<open>braille_write\<close>, which sends one full frame of it if the line differs
  from the line sent last and sends nothing if it is equal to it; nothing is sent while
  browsing.
\<close>

theorem insert_twice_sends_changed_line:
  assumes "cursor_inv st" "braille_co st = Some co" "console_show st \<noteq> 0"
    and "is_trigger e1" "is_trigger e2" "\<forall>e\<in>set evs. \<not> is_trigger e"
  shows "\<exists>stb st'. run (e1 # evs) st = Some stb \<and> console_show stb = 0
           \<and> run (e1 # evs @ [e2]) st = Some st'
           \<and> console_show st' = 1 \<and> lastVC st' = - 1
           \<and> console_buf st' = console_buf stb
           \<and> transport_writes st' = transport_writes st @
               (if console_buf stb = last_write_buf st then []
                else [Write co (frame_of (console_buf stb))])"
  using mode_round_trip [OF assms] by blast

lemma cursor_inv_bound_state: "cursor_inv bound_state"
  using wf_bound_state by (simp add: cursor_inv_def) (simp add: bound_state_eq)

lemma bound_state_following:
  "console_show bound_state \<noteq> 0" "console_buf bound_state = last_write_buf bound_state"
  "transport_writes bound_state = []"
  by (simp_all add: bound_state_eq transport_writes_def)

lemma is_trigger_insert_down: "is_trigger insert_down"
  by (simp add: insert_down_def)

theorem insert_twice_sends_changed_line_witness:
  "cursor_inv bound_state \<and> braille_co bound_state = Some 0 \<and> console_show bound_state \<noteq> 0
   \<and> is_trigger insert_down
   \<and> list_all (\<lambda>e. \<not> is_trigger e) [vt_write_event vc_100x25 0x41]
   \<and> (\<exists>stb st'. run [insert_down, vt_write_event vc_100x25 0x41] bound_state = Some stb
           \<and> console_show stb = 0
           \<and> run [insert_down, vt_write_event vc_100x25 0x41, insert_down] bound_state = Some st'
           \<and> console_show st' = 1 \<and> lastVC st' = - 1
           \<and> console_buf st' = console_buf stb
           \<and> transport_writes st' = transport_writes bound_state @
               (if console_buf stb = last_write_buf bound_state then []
                else [Write 0 (frame_of (console_buf stb))]))"
proof -
  have n: "\<forall>e\<in>set [vt_write_event vc_100x25 0x41]. \<not> is_trigger e"
    by (simp add: vt_write_event_def)
  have l: "list_all (\<lambda>e. \<not> is_trigger e) [vt_write_event vc_100x25 0x41]"
    by (simp add: vt_write_event_def)
  show ?thesis
    using insert_twice_sends_changed_line [OF cursor_inv_bound_state braille_co_bound_state
        bound_state_following(1) is_trigger_insert_down is_trigger_insert_down n]
      cursor_inv_bound_state braille_co_bound_state bound_state_following(1)
      is_trigger_insert_down l
    by simp
qed

lemma round_trip_unchanged_line:
  assumes "cursor_inv st" "braille_co st = Some co" "console_show st \<noteq> 0"
    and "console_buf st = last_write_buf st" "is_trigger e1" "is_trigger e2"
  shows "\<exists>st'. run [e1, e2] st = Some st' \<and> console_show st' = 1
           \<and> transport_writes st' = transport_writes st"
proof -
  obtain st1 where 1: "step e1 st = Some st1" "cursor_inv st1"
      "console_show st1 = 0" "console_buf st1 = console_buf st"
      "last_write_buf st1 = last_write_buf st" "braille_co st1 = braille_co st"
      "transport_writes st1 = transport_writes st"
    using trigger_enters_browsing [OF assms(1,3,5)] by blast
  have co: "braille_co st1 = Some co" using 1(6) assms(2) by simp
  obtain st2 where 2: "step e2 st1 = Some st2" "console_show st2 = 1"
      "transport_writes st2 = transport_writes st1 @
               (if console_buf st1 = last_write_buf st1 then []
                else [Write co (frame_of (console_buf st1))])"
    using trigger_leaves_browsing [OF 1(2,3) assms(6) co] by blast
  have "console_buf st1 = last_write_buf st1" using 1(4,5) assms(4) by simp
  then have "transport_writes st2 = transport_writes st" using 2(3) 1(7) by simp
  moreover have "run [e1, e2] st = Some st2" using 1(1) 2(1) by simp
  ultimately show ?thesis using 2(2) by blast
qed

lemma following_write:
  assumes "cursor_inv st" "braille_co st = Some co" "console_show st \<noteq> 0"
  shows "\<exists>st'. step (vt_write_event vc c) st = Some st' \<and> cursor_inv st'
           \<and> braille_co st' = Some co \<and> console_show st' \<noteq> 0
           \<and> console_buf st' = last_write_buf st'
           \<and> transport_writes st' = transport_writes st @
               (if console_buf st' = last_write_buf st then []
                else [Write co (frame_of (console_buf st'))])"
proof -
  obtain st1 where 1: "vt_write_switch (ucast c) st = Some st1" "cursor_inv st1"
      "last_write_buf st1 = last_write_buf st" "console_show st1 = console_show st"
      "braille_co st1 = braille_co st" "trace st1 = trace st"
    using switch_inv [OF assms(1)] by blast
  have w: "wf_state st1" "length (console_buf st1) = WIDTH" "braille_co st1 = Some co"
    using 1(2,5) assms(2) by (simp_all add: cursor_inv_def wf_state_def)
  define st2 where "st2 = (if console_buf st1 = last_write_buf st1 then st1
     else emit (Write co (frame_of (console_buf st1))) (st1\<lparr>last_write_buf := console_buf st1\<rparr>))"
  have bw: "braille_write (console_buf st1) st1 = Some st2"
  proof (cases "console_buf st1 = last_write_buf st1")
    case True
    then show ?thesis using braille_write_same [OF w(1,2)] by (simp add: st2_def)
  next
    case False
    then show ?thesis using braille_write_new [OF w(1,3,2)] by (simp add: st2_def)
  qed
  have "step (vt_write_event vc c) st = Some st2"
    using 1(1,4) assms(3) bw by (simp add: step_def vt_write_event_def vt_notifier_call_def)
  moreover have "cursor_inv st2" "braille_co st2 = Some co" "console_show st2 \<noteq> 0"
    "console_buf st2 = last_write_buf st2" "console_buf st2 = console_buf st1"
    using 1(2,4) w assms(3) by (auto simp add: st2_def emit_def cursor_inv_def wf_state_def)
  moreover have "transport_writes st2 = transport_writes st @
               (if console_buf st1 = last_write_buf st then []
                else [Write co (frame_of (console_buf st1))])"
    using 1(3,6) by (simp add: st2_def emit_def transport_writes_def)
  ultimately show ?thesis by simp
qed

text \<open>
  Two presses of the trigger key with no character in between send nothing: not on the
  freshly bound device, and not after the character \<open>a\<close> has been written and sent in
  following mode, where the only frame on the transport is the one the character itself
  caused.
\<close>

theorem insert_twice_sends_nothing:
  "map_option transport_writes (run [insert_down, insert_down] bound_state) = Some []
   \<and> map_option console_show (run [insert_down, insert_down] bound_state) = Some 1
   \<and> map_option transport_writes
       (run [vt_write_event vc_100x25 0x61, insert_down, insert_down] bound_state)
     = Some [Write 0 (frame_of (0x61 # replicate (WIDTH - 1) 0))]
   \<and> map_option transport_writes (run [vt_write_event vc_100x25 0x61] bound_state)
     = Some [Write 0 (frame_of (0x61 # replicate (WIDTH - 1) 0))]"
proof -
  obtain st2 where 2: "run [insert_down, insert_down] bound_state = Some st2"
      "console_show st2 = 1" "transport_writes st2 = transport_writes bound_state"
    using round_trip_unchanged_line [OF cursor_inv_bound_state braille_co_bound_state
        bound_state_following(1,2) is_trigger_insert_down is_trigger_insert_down] by blast
  obtain sa where a: "step (vt_write_event vc_100x25 0x61) bound_state = Some sa"
      "cursor_inv sa" "braille_co sa = Some 0" "console_show sa \<noteq> 0"
      "console_buf sa = last_write_buf sa"
      "transport_writes sa = transport_writes bound_state @
               (if console_buf sa = last_write_buf bound_state then []
                else [Write 0 (frame_of (console_buf sa))])"
    using following_write [OF cursor_inv_bound_state braille_co_bound_state
        bound_state_following(1)] by blast
  have "printable 0x61" by (simp add: printable_def)
  moreover have "console_newline bound_state \<noteq> 0" by (simp add: bound_state_eq)
  ultimately have buf: "console_buf sa = 0x61 # replicate (WIDTH - 1) 0"
    using step_printable_newline [OF wf_bound_state, of "0x61" vc_100x25] a(1) by auto
  have "WIDTH = Suc (WIDTH - 1)" by (simp add: WIDTH_def)
  then have "replicate WIDTH (0::u16) = 0 # replicate (WIDTH - 1) 0"
    by (metis replicate_Suc)
  then have "last_write_buf bound_state = 0 # replicate (WIDTH - 1) 0"
    by (simp add: bound_state_eq)
  then have wa: "transport_writes sa = [Write 0 (frame_of (0x61 # replicate (WIDTH - 1) 0))]"
    using a(6) buf bound_state_following(3) by simp
  obtain s3 where 3: "run [insert_down, insert_down] sa = Some s3"
      "transport_writes s3 = transport_writes sa"
    using round_trip_unchanged_line [OF a(2,3,4,5) is_trigger_insert_down is_trigger_insert_down]
    by blast
  have "run [vt_write_event vc_100x25 0x61, insert_down, insert_down] bound_state = Some s3"
    using a(1) 3(1) by simp
  moreover have "run [vt_write_event vc_100x25 0x61] bound_state = Some sa"
    using a(1) by simp
  ultimately show ?thesis using 2 3(2) wa bound_state_following(3) by simp
qed

section \<open>Panning\<close>

text \<open>
  The viewport variables are \<open>int\<close>s and the grid size is unsigned. Where no operation
  overflows, the words behave as the integers they stand for.
\<close>

lemma sint_plus:
  assumes "- (2 ^ 31) \<le> sint x + k" "sint x + k < 2 ^ 31"
  shows "sint (x + word_of_int k :: u32) = sint x + k"
proof -
  have "x + word_of_int k = word_of_int (sint x + k)" by simp
  then have "sint (x + word_of_int k) = signed_take_bit 31 (sint x + k)"
    by (simp only: signed_of_int) simp
  then show ?thesis using assms by (simp add: signed_take_bit_int_eq_self)
qed

lemma uint_plus_sint:
  assumes "0 \<le> sint x + k" "sint x + k < 2 ^ 32"
  shows "uint (x + word_of_int k :: u32) = sint x + k"
proof -
  have "x + word_of_int k = word_of_int (sint x + k)" by simp
  then have "uint (x + word_of_int k) = take_bit 32 (sint x + k)"
    by (simp only: unsigned_of_int) simp
  then show ?thesis using assms by (simp add: take_bit_int_eq_self)
qed

lemma sint_plus_uint:
  assumes "- (2 ^ 31) \<le> uint c + k" "uint c + k < 2 ^ 31"
  shows "sint (c + word_of_int k :: u32) = uint c + k"
proof -
  have "c + word_of_int k = word_of_int (uint c + k)" by simp
  then have "sint (c + word_of_int k) = signed_take_bit 31 (uint c + k)"
    by (simp only: signed_of_int) simp
  then show ?thesis using assms by (simp add: signed_take_bit_int_eq_self)
qed

lemma sint_bounds32: "- (2 ^ 31) \<le> sint (x::u32)" "sint (x::u32) < 2 ^ 31"
  using sint_ge [of x] sint_lt [of x] by simp_all

lemma pan_arith:
  fixes x y c r :: u32
  shows "0 < sint x \<Longrightarrow> sint (x - 40) = sint x - 40"
    and "- 40 \<le> sint x \<Longrightarrow> uint (x + 40) = sint x + 40"
    and "- 40 \<le> sint x \<Longrightarrow> sint x + 40 < 2 ^ 31 \<Longrightarrow> sint (x + 40) = sint x + 40"
    and "uint c < 2 ^ 31 \<Longrightarrow> sint (c - 40) = uint c - 40"
    and "1 \<le> sint y \<Longrightarrow> sint (y - 1) = sint y - 1"
    and "- 1 \<le> sint y \<Longrightarrow> uint (y + 1) = sint y + 1"
    and "- 1 \<le> sint y \<Longrightarrow> sint y + 1 < 2 ^ 31 \<Longrightarrow> sint (y + 1) = sint y + 1"
    and "uint r < 2 ^ 31 \<Longrightarrow> sint (r - 1) = uint r - 1"
proof -
  note b = sint_bounds32 [of x] sint_bounds32 [of y]
  have u: "0 \<le> uint c" "0 \<le> uint r" by simp_all
  show "0 < sint x \<Longrightarrow> sint (x - 40) = sint x - 40"
    using sint_plus [of x "- 40"] b by simp
  show "- 40 \<le> sint x \<Longrightarrow> uint (x + 40) = sint x + 40"
    using uint_plus_sint [of x 40] b by simp
  show "- 40 \<le> sint x \<Longrightarrow> sint x + 40 < 2 ^ 31 \<Longrightarrow> sint (x + 40) = sint x + 40"
    using sint_plus [of x 40] by simp
  show "uint c < 2 ^ 31 \<Longrightarrow> sint (c - 40) = uint c - 40"
    using sint_plus_uint [of c "- 40"] u(1) by simp
  show "1 \<le> sint y \<Longrightarrow> sint (y - 1) = sint y - 1"
    using sint_plus [of y "- 1"] b by simp
  show "- 1 \<le> sint y \<Longrightarrow> uint (y + 1) = sint y + 1"
    using uint_plus_sint [of y 1] b by simp
  show "- 1 \<le> sint y \<Longrightarrow> sint y + 1 < 2 ^ 31 \<Longrightarrow> sint (y + 1) = sint y + 1"
    using sint_plus [of y 1] by simp
  show "sint (r - 1) = uint r - 1" if "uint r < 2 ^ 31"
  proof -
    have "- (2 ^ 31) \<le> uint r + - 1" "uint r + - 1 < 2 ^ 31" using u(2) that by linarith+
    then show ?thesis using sint_plus_uint [of r "- 1"] by simp
  qed
qed

lemma pan_left:
  assumes "console_show st = 0" "kp_down param \<noteq> 0" "kp_vc param = vc"
    and "kp_value param = KEY_LEFT"
    and "X = sint (vc_view_x st)" "Y = sint (vc_view_y st)" "C = uint (vc_cols vc)"
    and "C < 2 ^ 31"
  shows "\<exists>x' y'. keyboard_notifier_call KBD_KEYCODE param st
           = Some (NOTIFY_STOP,
               st\<lparr>vc_view_x := x', vc_view_y := y',
                  trace := trace st
                    @ (if 0 < X then []
                       else if 1 \<le> Y then (if sound st then [Mksound BEEP_HIGH] else [])
                       else (if sound st then [Mksound BEEP_LOW] else []))
                    @ [Maybe_cursor_moved (vc_num vc), Vc_refresh (vc_num vc)]\<rparr>)
         \<and> sint x' = (if 0 < X then max 0 (X - int WIDTH)
                      else if 1 \<le> Y then C - int WIDTH else X)
         \<and> sint y' = (if 0 < X then Y else if 1 \<le> Y then Y - 1 else Y)"
proof -
  let ?x = "vc_view_x st" and ?y = "vc_view_y st"
  consider (step) "0 < X" | (wrap) "\<not> 0 < X" "1 \<le> Y" | (blocked) "\<not> 0 < X" "\<not> 1 \<le> Y"
    by blast
  then show ?thesis
  proof cases
    case step
    then have a: "sint (?x - 40) = X - 40" using assms(5) pan_arith(1) [of ?x] by simp
    let ?x' = "if X - 40 < 0 then 0 else ?x - 40"
    have "keyboard_notifier_call KBD_KEYCODE param st
        = Some (NOTIFY_STOP, st\<lparr>vc_view_x := ?x', vc_view_y := ?y,
             trace := trace st @ [Maybe_cursor_moved (vc_num vc), Vc_refresh (vc_num vc)]\<rparr>)"
      using assms(1-5) step a
      by (simp add: keyboard_notifier_call_def handle_vc_key_def Let_def refresh_vc_def emit_def
          WIDTH_def)
    moreover have "sint ?x' = max 0 (X - int WIDTH)" using a by (simp add: WIDTH_def)
    ultimately show ?thesis using step assms(6) by (intro exI [of _ ?x'] exI [of _ ?y]) simp
  next
    case wrap
    have a: "sint (vc_cols vc - 40) = C - 40" "sint (?y - 1) = Y - 1"
      using assms(6,7,8) wrap pan_arith(4) [of "vc_cols vc"] pan_arith(5) [of ?y] by simp_all
    have "keyboard_notifier_call KBD_KEYCODE param st
        = Some (NOTIFY_STOP, st\<lparr>vc_view_x := vc_cols vc - 40, vc_view_y := ?y - 1,
             trace := trace st @ (if sound st then [Mksound BEEP_HIGH] else [])
               @ [Maybe_cursor_moved (vc_num vc), Vc_refresh (vc_num vc)]\<rparr>)"
      using assms(1-6) wrap
      by (simp add: keyboard_notifier_call_def handle_vc_key_def Let_def refresh_vc_def emit_def
          beep_def WIDTH_def)
    then show ?thesis using wrap a
      by (intro exI [of _ "vc_cols vc - 40"] exI [of _ "?y - 1"]) (simp add: WIDTH_def)
  next
    case blocked
    have "keyboard_notifier_call KBD_KEYCODE param st
        = Some (NOTIFY_STOP, st\<lparr>vc_view_x := ?x, vc_view_y := ?y,
             trace := trace st @ (if sound st then [Mksound BEEP_LOW] else [])
               @ [Maybe_cursor_moved (vc_num vc), Vc_refresh (vc_num vc)]\<rparr>)"
      using assms(1-6) blocked
      by (simp add: keyboard_notifier_call_def handle_vc_key_def Let_def refresh_vc_def emit_def
          beep_def WIDTH_def)
    then show ?thesis using blocked assms(5,6)
      by (intro exI [of _ ?x] exI [of _ ?y]) simp
  qed
qed

lemma pan_right:
  assumes "console_show st = 0" "kp_down param \<noteq> 0" "kp_vc param = vc"
    and "kp_value param = KEY_RIGHT"
    and "X = sint (vc_view_x st)" "Y = sint (vc_view_y st)"
    and "C = uint (vc_cols vc)" "R = uint (vc_rows vc)"
    and "- int WIDTH \<le> X" "- 1 \<le> Y" "C < 2 ^ 31" "R < 2 ^ 31"
  shows "\<exists>x' y'. keyboard_notifier_call KBD_KEYCODE param st
           = Some (NOTIFY_STOP,
               st\<lparr>vc_view_x := x', vc_view_y := y',
                  trace := trace st
                    @ (if X + int WIDTH < C then []
                       else if Y + 1 < R then (if sound st then [Mksound BEEP_HIGH] else [])
                       else (if sound st then [Mksound BEEP_LOW] else []))
                    @ [Maybe_cursor_moved (vc_num vc), Vc_refresh (vc_num vc)]\<rparr>)
         \<and> sint x' = (if X + int WIDTH < C then X + int WIDTH
                      else if Y + 1 < R then 0 else X)
         \<and> sint y' = (if X + int WIDTH < C then Y else if Y + 1 < R then Y + 1 else Y)"
proof -
  let ?x = "vc_view_x st" and ?y = "vc_view_y st"
  have cx: "(?x + 40 < vc_cols vc) = (X + 40 < C)"
    using assms(5,7,9) pan_arith(2) [of ?x] by (simp add: word_less_def WIDTH_def)
  have cy: "(?y + 1 < vc_rows vc) = (Y + 1 < R)"
    using assms(6,8,10) pan_arith(6) [of ?y] by (simp add: word_less_def)
  consider (step) "X + 40 < C" | (wrap) "\<not> X + 40 < C" "Y + 1 < R"
    | (blocked) "\<not> X + 40 < C" "\<not> Y + 1 < R"
    by blast
  then show ?thesis
  proof cases
    case step
    then have a: "sint (?x + 40) = X + 40"
      using assms(5,9,11) pan_arith(3) [of ?x] by (simp add: WIDTH_def)
    have "keyboard_notifier_call KBD_KEYCODE param st
        = Some (NOTIFY_STOP, st\<lparr>vc_view_x := ?x + 40, vc_view_y := ?y,
             trace := trace st @ [Maybe_cursor_moved (vc_num vc), Vc_refresh (vc_num vc)]\<rparr>)"
      using assms(1-4) step cx
      by (simp add: keyboard_notifier_call_def handle_vc_key_def Let_def refresh_vc_def emit_def
          WIDTH_def)
    then show ?thesis using step a assms(6)
      by (intro exI [of _ "?x + 40"] exI [of _ ?y]) (simp add: WIDTH_def)
  next
    case wrap
    then have a: "sint (?y + 1) = Y + 1"
      using assms(6,10,12) pan_arith(7) [of ?y] by simp
    have "keyboard_notifier_call KBD_KEYCODE param st
        = Some (NOTIFY_STOP, st\<lparr>vc_view_x := 0, vc_view_y := ?y + 1,
             trace := trace st @ (if sound st then [Mksound BEEP_HIGH] else [])
               @ [Maybe_cursor_moved (vc_num vc), Vc_refresh (vc_num vc)]\<rparr>)"
      using assms(1-4) wrap cx cy
      by (simp add: keyboard_notifier_call_def handle_vc_key_def Let_def refresh_vc_def emit_def
          beep_def WIDTH_def)
    then show ?thesis using wrap a
      by (intro exI [of _ 0] exI [of _ "?y + 1"]) (simp add: WIDTH_def)
  next
    case blocked
    have "keyboard_notifier_call KBD_KEYCODE param st
        = Some (NOTIFY_STOP, st\<lparr>vc_view_x := ?x, vc_view_y := ?y,
             trace := trace st @ (if sound st then [Mksound BEEP_LOW] else [])
               @ [Maybe_cursor_moved (vc_num vc), Vc_refresh (vc_num vc)]\<rparr>)"
      using assms(1-4) blocked cx cy
      by (simp add: keyboard_notifier_call_def handle_vc_key_def Let_def refresh_vc_def emit_def
          beep_def WIDTH_def)
    then show ?thesis using blocked assms(5,6)
      by (intro exI [of _ ?x] exI [of _ ?y]) (simp add: WIDTH_def)
  qed
qed

text \<open>
  Claim C7. Write \<open>X\<close>, \<open>Y\<close> for the values of \<open>vc_view_x\<close>, \<open>vc_view_y\<close> as \<open>int\<close>s and
  \<open>C\<close>, \<open>R\<close> for the columns and rows, and let \<open>-WIDTH \<le> X\<close>, \<open>-1 \<le> Y\<close> and \<open>C\<close>, \<open>R\<close>
  below \<open>2^31\<close> (the handlers keep the window in this range on such a grid, see
  \<open>run_view_range\<close>). In browsing mode a key-down of \<open>KEY_LEFT\<close> gives \<open>max 0 (X - WIDTH)\<close>
  when \<open>X > 0\<close>; else, when \<open>Y \<ge> 1\<close>, \<open>(C - WIDTH, Y - 1)\<close> and, if sounds are on, the
  sound \<open>BEEP_HIGH\<close>; else no change and the sound \<open>BEEP_LOW\<close>. A key-down of \<open>KEY_RIGHT\<close>
  gives \<open>X + WIDTH\<close>, with no upper clamp, when \<open>X + WIDTH < C\<close>; else, when
  \<open>Y + 1 < R\<close>, \<open>(0, Y + 1)\<close> and the sound \<open>BEEP_HIGH\<close>; else no change and the sound
  \<open>BEEP_LOW\<close>. Nothing else changes but the trace, which gains the sound, if any, and the
  refresh; the key is consumed.
\<close>

theorem pan_left_right:
  assumes "console_show st = 0" "kp_down param \<noteq> 0" "kp_vc param = vc"
    and "X = sint (vc_view_x st)" "Y = sint (vc_view_y st)"
    and "C = uint (vc_cols vc)" "R = uint (vc_rows vc)"
    and "- int WIDTH \<le> X" "- 1 \<le> Y" "C < 2 ^ 31" "R < 2 ^ 31"
  shows "(\<exists>x' y'. keyboard_notifier_call KBD_KEYCODE (param\<lparr>kp_value := KEY_LEFT\<rparr>) st
           = Some (NOTIFY_STOP,
               st\<lparr>vc_view_x := x', vc_view_y := y',
                  trace := trace st
                    @ (if 0 < X then []
                       else if 1 \<le> Y then (if sound st then [Mksound BEEP_HIGH] else [])
                       else (if sound st then [Mksound BEEP_LOW] else []))
                    @ [Maybe_cursor_moved (vc_num vc), Vc_refresh (vc_num vc)]\<rparr>)
         \<and> sint x' = (if 0 < X then max 0 (X - int WIDTH)
                      else if 1 \<le> Y then C - int WIDTH else X)
         \<and> sint y' = (if 0 < X then Y else if 1 \<le> Y then Y - 1 else Y))
       \<and> (\<exists>x' y'. keyboard_notifier_call KBD_KEYCODE (param\<lparr>kp_value := KEY_RIGHT\<rparr>) st
           = Some (NOTIFY_STOP,
               st\<lparr>vc_view_x := x', vc_view_y := y',
                  trace := trace st
                    @ (if X + int WIDTH < C then []
                       else if Y + 1 < R then (if sound st then [Mksound BEEP_HIGH] else [])
                       else (if sound st then [Mksound BEEP_LOW] else []))
                    @ [Maybe_cursor_moved (vc_num vc), Vc_refresh (vc_num vc)]\<rparr>)
         \<and> sint x' = (if X + int WIDTH < C then X + int WIDTH
                      else if Y + 1 < R then 0 else X)
         \<and> sint y' = (if X + int WIDTH < C then Y else if Y + 1 < R then Y + 1 else Y))"
proof
  show "\<exists>x' y'. keyboard_notifier_call KBD_KEYCODE (param\<lparr>kp_value := KEY_LEFT\<rparr>) st
           = Some (NOTIFY_STOP,
               st\<lparr>vc_view_x := x', vc_view_y := y',
                  trace := trace st
                    @ (if 0 < X then []
                       else if 1 \<le> Y then (if sound st then [Mksound BEEP_HIGH] else [])
                       else (if sound st then [Mksound BEEP_LOW] else []))
                    @ [Maybe_cursor_moved (vc_num vc), Vc_refresh (vc_num vc)]\<rparr>)
         \<and> sint x' = (if 0 < X then max 0 (X - int WIDTH)
                      else if 1 \<le> Y then C - int WIDTH else X)
         \<and> sint y' = (if 0 < X then Y else if 1 \<le> Y then Y - 1 else Y)"
    using pan_left [of st "param\<lparr>kp_value := KEY_LEFT\<rparr>" vc X Y C] assms by simp
  show "\<exists>x' y'. keyboard_notifier_call KBD_KEYCODE (param\<lparr>kp_value := KEY_RIGHT\<rparr>) st
           = Some (NOTIFY_STOP,
               st\<lparr>vc_view_x := x', vc_view_y := y',
                  trace := trace st
                    @ (if X + int WIDTH < C then []
                       else if Y + 1 < R then (if sound st then [Mksound BEEP_HIGH] else [])
                       else (if sound st then [Mksound BEEP_LOW] else []))
                    @ [Maybe_cursor_moved (vc_num vc), Vc_refresh (vc_num vc)]\<rparr>)
         \<and> sint x' = (if X + int WIDTH < C then X + int WIDTH
                      else if Y + 1 < R then 0 else X)
         \<and> sint y' = (if X + int WIDTH < C then Y else if Y + 1 < R then Y + 1 else Y)"
    using pan_right [of st "param\<lparr>kp_value := KEY_RIGHT\<rparr>" vc X Y C R] assms by simp
qed

lemma sound_browsing_facts:
  "console_show (sound_browsing x y) = 0" "sound (sound_browsing x y)"
  "vc_view_x (sound_browsing x y) = x" "vc_view_y (sound_browsing x y) = y"
  by (simp_all add: sound_browsing_def)

lemma key_down_facts:
  "kp_down (key_down k) \<noteq> 0" "kp_vc (key_down k) = vc_100x25"
  "(key_down k)\<lparr>kp_value := k'\<rparr> = key_down k'"
  by (simp_all add: key_down_def)

lemma vc_100x25_facts:
  "uint (vc_cols vc_100x25) = 100" "uint (vc_rows vc_100x25) = 25" "vc_num vc_100x25 = 1"
  by (simp_all add: vc_100x25_def)

theorem pan_left_right_witness:
  "console_show (sound_browsing 40 3) = 0 \<and> kp_down (key_down KEY_LEFT) \<noteq> 0
   \<and> - int WIDTH \<le> sint (40 :: u32) \<and> - 1 \<le> sint (3 :: u32)
   \<and> uint (vc_cols vc_100x25) < 2 ^ 31 \<and> uint (vc_rows vc_100x25) < 2 ^ 31
   \<and> uint (vc_cols vc_100x25) - int WIDTH = 60
   \<and> (\<exists>x' y'. keyboard_notifier_call KBD_KEYCODE (key_down KEY_LEFT) (sound_browsing 40 3)
        = Some (NOTIFY_STOP, (sound_browsing 40 3)\<lparr>vc_view_x := x', vc_view_y := y',
             trace := trace (sound_browsing 40 3)
               @ [Maybe_cursor_moved 1, Vc_refresh 1]\<rparr>)
      \<and> sint x' = 0 \<and> sint y' = 3)
   \<and> (\<exists>x' y'. keyboard_notifier_call KBD_KEYCODE (key_down KEY_RIGHT) (sound_browsing 40 3)
        = Some (NOTIFY_STOP, (sound_browsing 40 3)\<lparr>vc_view_x := x', vc_view_y := y',
             trace := trace (sound_browsing 40 3)
               @ [Maybe_cursor_moved 1, Vc_refresh 1]\<rparr>)
      \<and> sint x' = 80 \<and> sint y' = 3)
   \<and> (\<exists>x' y'. keyboard_notifier_call KBD_KEYCODE (key_down KEY_LEFT) (sound_browsing 0 0)
        = Some (NOTIFY_STOP, (sound_browsing 0 0)\<lparr>vc_view_x := x', vc_view_y := y',
             trace := trace (sound_browsing 0 0)
               @ [Mksound BEEP_LOW, Maybe_cursor_moved 1, Vc_refresh 1]\<rparr>)
      \<and> sint x' = 0 \<and> sint y' = 0)
   \<and> (\<exists>x' y'. keyboard_notifier_call KBD_KEYCODE (key_down KEY_RIGHT) (sound_browsing 0 0)
        = Some (NOTIFY_STOP, (sound_browsing 0 0)\<lparr>vc_view_x := x', vc_view_y := y',
             trace := trace (sound_browsing 0 0)
               @ [Maybe_cursor_moved 1, Vc_refresh 1]\<rparr>)
      \<and> sint x' = 40 \<and> sint y' = 0)
   \<and> (\<exists>x' y'. keyboard_notifier_call KBD_KEYCODE (key_down KEY_LEFT) (sound_browsing 80 24)
        = Some (NOTIFY_STOP, (sound_browsing 80 24)\<lparr>vc_view_x := x', vc_view_y := y',
             trace := trace (sound_browsing 80 24)
               @ [Maybe_cursor_moved 1, Vc_refresh 1]\<rparr>)
      \<and> sint x' = 40 \<and> sint y' = 24)
   \<and> (\<exists>x' y'. keyboard_notifier_call KBD_KEYCODE (key_down KEY_RIGHT) (sound_browsing 80 24)
        = Some (NOTIFY_STOP, (sound_browsing 80 24)\<lparr>vc_view_x := x', vc_view_y := y',
             trace := trace (sound_browsing 80 24)
               @ [Mksound BEEP_LOW, Maybe_cursor_moved 1, Vc_refresh 1]\<rparr>)
      \<and> sint x' = 80 \<and> sint y' = 24)
   \<and> (\<exists>x' y'. keyboard_notifier_call KBD_KEYCODE (key_down KEY_LEFT) (sound_browsing 0 3)
        = Some (NOTIFY_STOP, (sound_browsing 0 3)\<lparr>vc_view_x := x', vc_view_y := y',
             trace := trace (sound_browsing 0 3)
               @ [Mksound BEEP_HIGH, Maybe_cursor_moved 1, Vc_refresh 1]\<rparr>)
      \<and> sint x' = 60 \<and> sint y' = 2)
   \<and> (\<exists>x' y'. keyboard_notifier_call KBD_KEYCODE (key_down KEY_RIGHT) (sound_browsing 0 3)
        = Some (NOTIFY_STOP, (sound_browsing 0 3)\<lparr>vc_view_x := x', vc_view_y := y',
             trace := trace (sound_browsing 0 3)
               @ [Maybe_cursor_moved 1, Vc_refresh 1]\<rparr>)
      \<and> sint x' = 40 \<and> sint y' = 3)
   \<and> (\<exists>x' y'. keyboard_notifier_call KBD_KEYCODE (key_down KEY_LEFT) (sound_browsing 80 3)
        = Some (NOTIFY_STOP, (sound_browsing 80 3)\<lparr>vc_view_x := x', vc_view_y := y',
             trace := trace (sound_browsing 80 3)
               @ [Maybe_cursor_moved 1, Vc_refresh 1]\<rparr>)
      \<and> sint x' = 40 \<and> sint y' = 3)
   \<and> (\<exists>x' y'. keyboard_notifier_call KBD_KEYCODE (key_down KEY_RIGHT) (sound_browsing 80 3)
        = Some (NOTIFY_STOP, (sound_browsing 80 3)\<lparr>vc_view_x := x', vc_view_y := y',
             trace := trace (sound_browsing 80 3)
               @ [Mksound BEEP_HIGH, Maybe_cursor_moved 1, Vc_refresh 1]\<rparr>)
      \<and> sint x' = 0 \<and> sint y' = 4)"
proof -
  have i0: "(\<exists>x' y'. keyboard_notifier_call KBD_KEYCODE (key_down KEY_LEFT) (sound_browsing 40 3)
           = Some (NOTIFY_STOP, (sound_browsing 40 3)\<lparr>vc_view_x := x', vc_view_y := y',
                trace := trace (sound_browsing 40 3)
                  @ [Maybe_cursor_moved 1, Vc_refresh 1]\<rparr>)
         \<and> sint x' = 0 \<and> sint y' = 3)
      \<and> (\<exists>x' y'. keyboard_notifier_call KBD_KEYCODE (key_down KEY_RIGHT) (sound_browsing 40 3)
           = Some (NOTIFY_STOP, (sound_browsing 40 3)\<lparr>vc_view_x := x', vc_view_y := y',
                trace := trace (sound_browsing 40 3)
                  @ [Maybe_cursor_moved 1, Vc_refresh 1]\<rparr>)
         \<and> sint x' = 80 \<and> sint y' = 3)"
    using pan_left_right [of "sound_browsing 40 3" "key_down KEY_LEFT" vc_100x25
        40 3 100 25]
    by (simp add: sound_browsing_facts key_down_facts vc_100x25_facts WIDTH_def)
  have i1: "(\<exists>x' y'. keyboard_notifier_call KBD_KEYCODE (key_down KEY_LEFT) (sound_browsing 0 0)
           = Some (NOTIFY_STOP, (sound_browsing 0 0)\<lparr>vc_view_x := x', vc_view_y := y',
                trace := trace (sound_browsing 0 0)
                  @ [Mksound BEEP_LOW, Maybe_cursor_moved 1, Vc_refresh 1]\<rparr>)
         \<and> sint x' = 0 \<and> sint y' = 0)
      \<and> (\<exists>x' y'. keyboard_notifier_call KBD_KEYCODE (key_down KEY_RIGHT) (sound_browsing 0 0)
           = Some (NOTIFY_STOP, (sound_browsing 0 0)\<lparr>vc_view_x := x', vc_view_y := y',
                trace := trace (sound_browsing 0 0)
                  @ [Maybe_cursor_moved 1, Vc_refresh 1]\<rparr>)
         \<and> sint x' = 40 \<and> sint y' = 0)"
    using pan_left_right [of "sound_browsing 0 0" "key_down KEY_LEFT" vc_100x25
        0 0 100 25]
    by (simp add: sound_browsing_facts key_down_facts vc_100x25_facts WIDTH_def)
  have i2: "(\<exists>x' y'. keyboard_notifier_call KBD_KEYCODE (key_down KEY_LEFT) (sound_browsing 80 24)
           = Some (NOTIFY_STOP, (sound_browsing 80 24)\<lparr>vc_view_x := x', vc_view_y := y',
                trace := trace (sound_browsing 80 24)
                  @ [Maybe_cursor_moved 1, Vc_refresh 1]\<rparr>)
         \<and> sint x' = 40 \<and> sint y' = 24)
      \<and> (\<exists>x' y'. keyboard_notifier_call KBD_KEYCODE (key_down KEY_RIGHT) (sound_browsing 80 24)
           = Some (NOTIFY_STOP, (sound_browsing 80 24)\<lparr>vc_view_x := x', vc_view_y := y',
                trace := trace (sound_browsing 80 24)
                  @ [Mksound BEEP_LOW, Maybe_cursor_moved 1, Vc_refresh 1]\<rparr>)
         \<and> sint x' = 80 \<and> sint y' = 24)"
    using pan_left_right [of "sound_browsing 80 24" "key_down KEY_LEFT" vc_100x25
        80 24 100 25]
    by (simp add: sound_browsing_facts key_down_facts vc_100x25_facts WIDTH_def)
  have i3: "(\<exists>x' y'. keyboard_notifier_call KBD_KEYCODE (key_down KEY_LEFT) (sound_browsing 0 3)
           = Some (NOTIFY_STOP, (sound_browsing 0 3)\<lparr>vc_view_x := x', vc_view_y := y',
                trace := trace (sound_browsing 0 3)
                  @ [Mksound BEEP_HIGH, Maybe_cursor_moved 1, Vc_refresh 1]\<rparr>)
         \<and> sint x' = 60 \<and> sint y' = 2)
      \<and> (\<exists>x' y'. keyboard_notifier_call KBD_KEYCODE (key_down KEY_RIGHT) (sound_browsing 0 3)
           = Some (NOTIFY_STOP, (sound_browsing 0 3)\<lparr>vc_view_x := x', vc_view_y := y',
                trace := trace (sound_browsing 0 3)
                  @ [Maybe_cursor_moved 1, Vc_refresh 1]\<rparr>)
         \<and> sint x' = 40 \<and> sint y' = 3)"
    using pan_left_right [of "sound_browsing 0 3" "key_down KEY_LEFT" vc_100x25
        0 3 100 25]
    by (simp add: sound_browsing_facts key_down_facts vc_100x25_facts WIDTH_def)
  have i4: "(\<exists>x' y'. keyboard_notifier_call KBD_KEYCODE (key_down KEY_LEFT) (sound_browsing 80 3)
           = Some (NOTIFY_STOP, (sound_browsing 80 3)\<lparr>vc_view_x := x', vc_view_y := y',
                trace := trace (sound_browsing 80 3)
                  @ [Maybe_cursor_moved 1, Vc_refresh 1]\<rparr>)
         \<and> sint x' = 40 \<and> sint y' = 3)
      \<and> (\<exists>x' y'. keyboard_notifier_call KBD_KEYCODE (key_down KEY_RIGHT) (sound_browsing 80 3)
           = Some (NOTIFY_STOP, (sound_browsing 80 3)\<lparr>vc_view_x := x', vc_view_y := y',
                trace := trace (sound_browsing 80 3)
                  @ [Mksound BEEP_HIGH, Maybe_cursor_moved 1, Vc_refresh 1]\<rparr>)
         \<and> sint x' = 0 \<and> sint y' = 4)"
    using pan_left_right [of "sound_browsing 80 3" "key_down KEY_LEFT" vc_100x25
        80 3 100 25]
    by (simp add: sound_browsing_facts key_down_facts vc_100x25_facts WIDTH_def)
  have h: "console_show (sound_browsing 40 3) = 0" "kp_down (key_down KEY_LEFT) \<noteq> 0"
    "- int WIDTH \<le> sint (40 :: u32)" "- 1 \<le> sint (3 :: u32)"
    "uint (vc_cols vc_100x25) < 2 ^ 31" "uint (vc_rows vc_100x25) < 2 ^ 31"
    "uint (vc_cols vc_100x25) - int WIDTH = 60"
    by (simp_all add: sound_browsing_facts key_down_facts vc_100x25_facts WIDTH_def)
  show ?thesis using h i0 i1 i2 i3 i4 by blast
qed

section \<open>The output array of the encoder\<close>

text \<open>A store changes one cell: the cells beyond the last store keep their contents.\<close>

lemma store_drop:
  assumes "store a p v = Some a'" "nat p < m"
  shows "drop m a' = drop m a"
  using assms by (auto simp add: store_def split: if_splits)

lemma store_index: "store a p v = Some a' \<Longrightarrow> 0 \<le> p"
  by (simp add: store_def split: if_splits)

lemma braille_put_drop:
  assumes "braille_put b (csum, data, p) = Some (csum', data', p')"
  shows "0 \<le> p \<and> p < p' \<and> (\<forall>m. nat p' \<le> m \<longrightarrow> drop m data' = drop m data)"
proof (cases "(if b \<ge> 0x100 then 0x3F else if b = 0x00 then 0x20 else b) \<le> (0x05 :: u16)")
  case True
  with assms obtain d1 where 1: "store data p SOH = Some d1"
      "store d1 (p + 1) (ucast ((if b \<ge> 0x100 then 0x3F else if b = 0x00 then 0x20 else b) OR 0x40))
         = Some data'" "p' = p + 2"
    by (auto simp add: braille_put_def Let_def split: option.splits)
  have p: "0 \<le> p" using store_index [OF 1(1)] .
  have "drop m data' = drop m data" if "nat p' \<le> m" for m
  proof -
    have "nat p < m" "nat (p + 1) < m" using that p 1(3) by linarith+
    then show ?thesis using store_drop [OF 1(1)] store_drop [OF 1(2)] by simp
  qed
  then show ?thesis using p 1(3) by simp
next
  case False
  with assms have 1: "store data p (ucast (if b \<ge> 0x100 then 0x3F else if b = 0x00 then 0x20 else b))
         = Some data'" "p' = p + 1"
    by (auto simp add: braille_put_def Let_def split: option.splits)
  have p: "0 \<le> p" using store_index [OF 1(1)] .
  have "drop m data' = drop m data" if "nat p' \<le> m" for m
  proof -
    have "nat p < m" using that p 1(2) by linarith
    then show ?thesis using store_drop [OF 1(1)] by simp
  qed
  then show ?thesis using p 1(2) by simp
qed

lemma braille_loop_drop:
  assumes "braille_loop buf i (csum, data, p) = Some (csum', data', p')" "0 \<le> p"
  shows "p \<le> p' \<and> (\<forall>m. nat p' \<le> m \<longrightarrow> drop m data' = drop m data)"
  using assms
proof (induction "WIDTH - i" arbitrary: i csum data p)
  case 0
  then have "\<not> i < WIDTH" by simp
  with 0 show ?case by (subst (asm) braille_loop.simps) simp
next
  case (Suc n)
  then have i: "i < WIDTH" by simp
  from Suc.prems(1) i obtain b c1 d1 p1 where
    1: "braille_put b (csum, data, p) = Some (c1, d1, p1)"
       "braille_loop buf (Suc i) (c1, d1, p1) = Some (csum', data', p')"
    by (subst (asm) braille_loop.simps) (auto split: option.splits)
  have a: "p < p1" "\<forall>m. nat p1 \<le> m \<longrightarrow> drop m d1 = drop m data"
    using braille_put_drop [OF 1(1)] by simp_all
  have "n = WIDTH - Suc i" using Suc.hyps(2) by simp
  moreover have "0 \<le> p1" using a(1) Suc.prems(2) by simp
  ultimately have b: "p1 \<le> p'" "\<forall>m. nat p' \<le> m \<longrightarrow> drop m data' = drop m d1"
    using Suc.hyps(1) [of "Suc i" c1 d1 p1] 1(2) by simp_all
  have "drop m data' = drop m data" if "nat p' \<le> m" for m
  proof -
    have "nat p1 \<le> m" using that b(1) by linarith
    then show ?thesis using a(2) b(2) that by simp
  qed
  then show ?case using a(1) b(1) by simp
qed

lemma braille_frame_drop:
  assumes "braille_frame buf data0 = Some (data, p)"
  shows "drop (nat p) data = drop (nat p) data0"
proof -
  from assms obtain d1 d2 csum d3 p3 where
    s: "store data0 0 STX = Some d1" "store d1 1 0x3E = Some d2"
       "braille_loop buf 0 (0 XOR 0x3E, d2, 2) = Some (csum, d3, p3)"
    and r: "if csum \<le> 0x05 then
              \<exists>d4 d5. store d3 p3 SOH = Some d4 \<and> store d4 (p3 + 1) (csum OR 0x40) = Some d5
                \<and> store d5 (2 + p3) ETX = Some data \<and> p = 3 + p3
            else
              \<exists>d5. store d3 p3 csum = Some d5 \<and> store d5 (p3 + 1) ETX = Some data
                \<and> p = p3 + 2"
    by (auto simp add: braille_frame_def split: option.splits if_splits)
  have 3: "2 \<le> p3" "\<forall>m. nat p3 \<le> m \<longrightarrow> drop m d3 = drop m d2"
    using braille_loop_drop [OF s(3)] by simp_all
  let ?m = "nat p"
  have "drop ?m data = drop ?m d3"
  proof (cases "csum \<le> 0x05")
    case True
    with r obtain d4 d5 where t: "store d3 p3 SOH = Some d4"
        "store d4 (p3 + 1) (csum OR 0x40) = Some d5" "store d5 (2 + p3) ETX = Some data"
        "p = 3 + p3"
      by auto
    have m: "nat p3 < ?m" "nat (p3 + 1) < ?m" "nat (2 + p3) < ?m" using t(4) 3(1) by linarith+
    show ?thesis
      using store_drop [OF t(3) m(3)] store_drop [OF t(2) m(2)] store_drop [OF t(1) m(1)]
      by simp
  next
    case False
    with r obtain d5 where t: "store d3 p3 csum = Some d5" "store d5 (p3 + 1) ETX = Some data"
        "p = p3 + 2"
      by auto
    have m: "nat p3 < ?m" "nat (p3 + 1) < ?m" using t(3) 3(1) by linarith+
    show ?thesis
      using store_drop [OF t(2) m(2)] store_drop [OF t(1) m(1)] by simp
  qed
  moreover have m: "nat 0 < ?m" "nat 1 < ?m" "nat p3 \<le> ?m"
    using r 3(1) by (auto split: if_splits)
  ultimately show ?thesis
    using 3(2) store_drop [OF s(2) m(2)] store_drop [OF s(1) m(1)] by simp
qed

text \<open>
  Claim C10. Whatever the array \<open>data\<close> of \<open>2 * WIDTH + 5\<close> bytes holds at entry, building
  the frame of a line of \<open>WIDTH\<close> entries never stores outside it (the result is not
  \<open>None\<close>) and the final offset of \<open>data_ptr\<close> lies between \<open>WIDTH + 4\<close> and
  \<open>2 * WIDTH + 5\<close>. The bytes below that offset are the frame (start marker, command byte,
  each character and the checksum as one or two bytes, end marker), so every one of them
  has been stored; the bytes from that offset on are as they were at entry, so nothing
  else has been stored. The transport receives exactly the bytes below the offset.
\<close>

theorem frame_length_of_braille_write:
  assumes "wf_state st" "braille_co st = Some co" "length buf = WIDTH"
    and "buf \<noteq> last_write_buf st" "length data0 = 2 * WIDTH + 5"
  shows "\<exists>data data_ptr st'.
           braille_frame buf data0 = Some (data, data_ptr)
           \<and> length data = 2 * WIDTH + 5
           \<and> int WIDTH + 4 \<le> data_ptr \<and> data_ptr \<le> 2 * int WIDTH + 5
           \<and> take (nat data_ptr) data
               = STX # 0x3E # concat (map (\<lambda>b. escape (substitute b)) buf)
                 @ escape (checksum buf) @ [ETX]
           \<and> drop (nat data_ptr) data = drop (nat data_ptr) data0
           \<and> braille_write buf st = Some st'
           \<and> trace st' = trace st @ [Write co (take (nat data_ptr) data)]
           \<and> int (length (take (nat data_ptr) data)) = data_ptr"
proof -
  obtain data where d: "braille_frame buf data0 = Some (data, int (length (frame_of buf)))"
      "length data = length data0" "take (length (frame_of buf)) data = frame_of buf"
    using braille_frame_spec [OF assms(3,5)] by auto
  have u: "drop (length (frame_of buf)) data = drop (length (frame_of buf)) data0"
    using braille_frame_drop [OF d(1)] by simp
  have f: "frame_of buf = STX # 0x3E # concat (map (\<lambda>b. escape (substitute b)) buf)
                 @ escape (checksum buf) @ [ETX]"
    by (simp add: frame_of_def escaped_def)
  have "length (frame_of buf) = 3 + length (escaped buf) + length (escape (checksum buf))"
    by (simp add: frame_of_def)
  then have l: "WIDTH + 4 \<le> length (frame_of buf)" "length (frame_of buf) \<le> 2 * WIDTH + 5"
    using length_escaped [of buf] length_escape [of "checksum buf"] assms(3) by simp_all
  have w: "braille_write buf st
      = Some (emit (Write co (frame_of buf)) (st\<lparr>last_write_buf := buf\<rparr>))"
    using braille_write_new [OF assms(1-4)] .
  show ?thesis
    using d u l w assms(5) f [symmetric]
    by (intro exI [of _ data] exI [of _ "int (length (frame_of buf))"]
        exI [of _ "emit (Write co (frame_of buf)) (st\<lparr>last_write_buf := buf\<rparr>)"])
      (simp add: emit_def)
qed

theorem frame_length_of_braille_write_witness:
  "wf_state bound_state \<and> braille_co bound_state = Some 0
   \<and> length line_a_underscore = WIDTH \<and> line_a_underscore \<noteq> last_write_buf bound_state
   \<and> length data_aa = 2 * WIDTH + 5
   \<and> (\<exists>data st'.
           braille_frame line_a_underscore data_aa = Some (data, 45)
           \<and> length data = 2 * WIDTH + 5
           \<and> take 45 data = [0x02, 0x3E, 0x61, 0x5F] @ replicate 38 0x20 @ [0x01, 0x40, 0x03]
           \<and> drop 45 data = replicate 40 0xAA
           \<and> braille_write line_a_underscore bound_state = Some st'
           \<and> trace st' = trace bound_state @ [Write 0 (take 45 data)])"
proof -
  have l: "length data_aa = 2 * WIDTH + 5" by (simp add: data_aa_def WIDTH_def)
  obtain data data_ptr st' where r:
      "braille_frame line_a_underscore data_aa = Some (data, data_ptr)"
      "length data = 2 * WIDTH + 5"
      "take (nat data_ptr) data
         = STX # 0x3E # concat (map (\<lambda>b. escape (substitute b)) line_a_underscore)
           @ escape (checksum line_a_underscore) @ [ETX]"
      "drop (nat data_ptr) data = drop (nat data_ptr) data_aa"
      "braille_write line_a_underscore bound_state = Some st'"
      "trace st' = trace bound_state @ [Write 0 (take (nat data_ptr) data)]"
      "int (length (take (nat data_ptr) data)) = data_ptr"
    using frame_length_of_braille_write
      [OF wf_bound_state braille_co_bound_state line_a_underscore_new l]
    by blast
  have e: "STX # 0x3E # concat (map (\<lambda>b. escape (substitute b)) line_a_underscore)
           @ escape (checksum line_a_underscore) @ [ETX]
        = [0x02, 0x3E, 0x61, 0x5F] @ replicate 38 0x20 @ [0x01, 0x40, 0x03]"
    by code_simp
  have "length ([0x02, 0x3E, 0x61, 0x5F] @ replicate 38 0x20 @ [0x01, 0x40, 0x03 :: u8]) = 45"
    by simp
  then have p: "data_ptr = 45" using r(3,7) unfolding e by (metis of_nat_numeral)
  have dr: "drop 45 data_aa = replicate 40 0xAA" by (simp add: data_aa_def)
  show ?thesis
    using r(1,2,3,4,5,6) wf_bound_state braille_co_bound_state line_a_underscore_new l dr
    unfolding e p by (intro conjI exI [of _ data] exI [of _ st']) simp_all
qed

section \<open>The window stays in range\<close>

text \<open>
  On consoles whose grid size and cursor fit an \<open>int\<close>, every notification keeps
  \<open>vc_view_x\<close> at \<open>-WIDTH\<close> or more and \<open>vc_view_y\<close> at \<open>-1\<close> or more, from the initial state
  on: the range in which the panning of claim C7 is stated.
\<close>

lemma sint_small:
  assumes "uint (w::u32) < 2 ^ 31"
  shows "sint w = uint w"
proof -
  have "0 \<le> uint w" by simp
  then have "- (2 ^ 31) \<le> uint w + 0" "uint w + 0 < 2 ^ 31" using assms by linarith+
  then show ?thesis using sint_plus_uint [of w 0] by simp
qed

lemma follow_arith:
  assumes "uint (s::u32) < 2 ^ 31"
  shows "0 \<le> sint (s - s mod 40)"
proof -
  have "uint (s mod 40) = uint s mod 40" by (simp add: uint_mod_distrib)
  moreover have "uint s mod 40 \<le> uint s" by (simp add: zmod_le_nonneg_dividend)
  ultimately have "uint (s mod 40) \<le> uint s" by simp
  then have "uint (s - s mod 40) = uint s - uint (s mod 40)" by (simp add: uint_sub_lem)
  moreover have "0 \<le> uint (s mod 40)" by simp
  ultimately have "uint (s - s mod 40) < 2 ^ 31" using assms by linarith
  then show ?thesis using sint_small [of "s - s mod 40"] by simp
qed

lemma view_range_init_state: "view_range (init_state snd_on cs)"
  by (simp add: view_range_def init_state_def)

lemma braille_write_view:
  assumes "braille_write buf st = Some st'"
  shows "vc_view_x st' = vc_view_x st \<and> vc_view_y st' = vc_view_y st"
  using assms by (auto simp add: braille_write_def emit_def split: option.splits if_splits)

lemma vt_write_switch_view:
  assumes "vt_write_switch c st = Some st'"
  shows "vc_view_x st' = vc_view_x st \<and> vc_view_y st' = vc_view_y st"
  using assms
  by (auto simp add: vt_write_switch_def Let_def split: option.splits if_splits)

lemma vt_notifier_call_view:
  assumes "vt_notifier_call fg code param st = Some (r, st')"
  shows "vc_view_x st' = vc_view_x st \<and> vc_view_y st' = vc_view_y st"
proof (cases code)
  case VT_WRITE
  show ?thesis
  proof (cases "vc_num (vp_vc param) \<noteq> fg")
    case True
    then show ?thesis using assms VT_WRITE by (simp add: vt_notifier_call_def)
  next
    case False
    with assms VT_WRITE obtain st1 where 1: "vt_write_switch (ucast (vp_c param)) st = Some st1"
        "(if console_show st1 \<noteq> 0 then
            map_option (Pair NOTIFY_OK) (braille_write (console_buf st1) st1)
          else Some (NOTIFY_OK, refresh_vc (vp_vc param) st1)) = Some (r, st')"
      by (auto simp add: vt_notifier_call_def split: option.splits)
    have "vc_view_x st' = vc_view_x st1 \<and> vc_view_y st' = vc_view_y st1"
      using 1(2) braille_write_view [of "console_buf st1" st1 st']
      by (auto simp add: refresh_vc_def emit_def split: if_splits)
    then show ?thesis using vt_write_switch_view [OF 1(1)] by simp
  qed
next
  case VT_UPDATE
  show ?thesis
  proof (cases "console_show st \<noteq> 0 \<and> vc_num (vp_vc param) \<noteq> lastVC st")
    case True
    let ?st1 = "st\<lparr>lastVC := vc_num (vp_vc param),
                   console_buf := memset_all (console_buf st) 0, console_cursor := 0\<rparr>"
    have "braille_write (console_buf ?st1) ?st1 = Some st'"
      using assms VT_UPDATE True by (auto simp add: vt_notifier_call_def)
    then show ?thesis using braille_write_view [of "console_buf ?st1" ?st1 st'] by simp
  next
    case False
    then show ?thesis using assms VT_UPDATE
      by (auto simp add: vt_notifier_call_def Let_def refresh_vc_def emit_def split: if_splits)
  qed
qed (use assms in \<open>auto simp add: vt_notifier_call_def\<close>)

lemma view_range_follow:
  assumes "vc_small vc"
  shows "view_range (refresh_vc vc' (vc_follow_cursor vc st))"
proof -
  have "0 \<le> sint (state_x vc - state_x vc mod 40)" "sint (state_y vc) = uint (state_y vc)"
    using assms follow_arith [of "state_x vc"] sint_small [of "state_y vc"]
    by (simp_all add: vc_small_def)
  moreover have "0 \<le> uint (state_y vc)" by simp
  ultimately have "- 40 \<le> sint (state_x vc - state_x vc mod 40)" "- 1 \<le> sint (state_y vc)"
    by linarith+
  then show ?thesis
    by (simp add: view_range_def refresh_vc_def emit_def vc_follow_cursor_def WIDTH_def)
qed

lemma handle_vc_key_view_range:
  assumes "view_range st" "vc_small vc" "handle_vc_key param vc st = Some (r, st')"
    and "kp_value param \<noteq> KEY_LEFT" "kp_value param \<noteq> KEY_RIGHT"
  shows "view_range st'"
proof -
  let ?x = "vc_view_x st" and ?y = "vc_view_y st"
  have v: "- 40 \<le> sint ?x" "- 1 \<le> sint ?y"
    using assms(1) by (simp_all add: view_range_def WIDTH_def)
  have R: "uint (vc_rows vc) < 2 ^ 31" using assms(2) by (simp add: vc_small_def)
  show ?thesis
  proof (cases "kp_value param")
    case KEY_INSERT
    let ?st1 = "(beep BEEP_MED st)\<lparr>console_show := 1, lastVC := - 1\<rparr>"
    from assms(3) KEY_INSERT obtain st2 where
      2: "braille_write (console_buf ?st1) ?st1 = Some st2" "st' = refresh_vc vc st2"
      by (auto simp add: handle_vc_key_def Let_def split: option.splits)
    have "vc_view_x st2 = ?x \<and> vc_view_y st2 = ?y"
      using braille_write_view [OF 2(1)] by (simp add: beep_def emit_def)
    then show ?thesis using assms(1) 2(2)
      by (simp add: view_range_def refresh_vc_def emit_def)
  next
    case KEY_DOWN
    have cy: "(?y + 1 < vc_rows vc) = (sint ?y + 1 < uint (vc_rows vc))"
      using v(2) pan_arith(6) [of ?y] by (simp add: word_less_def)
    have "sint (?y + 1) = sint ?y + 1" if "?y + 1 < vc_rows vc"
      using that cy R v(2) pan_arith(7) [of ?y] by simp
    then show ?thesis using assms(1,3) KEY_DOWN v
      by (auto simp add: handle_vc_key_def Let_def view_range_def refresh_vc_def beep_def emit_def
          split: if_splits)
  next
    case KEY_UP
    have "sint (?y - 1) = sint ?y - 1" if "1 \<le> sint ?y"
      using that pan_arith(5) [of ?y] by simp
    then show ?thesis using assms(1,3) KEY_UP v
      by (auto simp add: handle_vc_key_def Let_def view_range_def refresh_vc_def beep_def emit_def
          split: if_splits)
  next
    case KEY_HOME
    then show ?thesis using assms(3) view_range_follow [OF assms(2), of vc st]
      by (auto simp add: handle_vc_key_def)
  next
    case KEY_PAGEUP
    then show ?thesis using assms(3)
      by (auto simp add: handle_vc_key_def view_range_def refresh_vc_def emit_def)
  next
    case KEY_PAGEDOWN
    have "sint (vc_rows vc - 1) = uint (vc_rows vc) - 1" using R pan_arith(8) by simp
    moreover have "0 \<le> uint (vc_rows vc)" by simp
    ultimately have "- 1 \<le> sint (vc_rows vc - 1)" by linarith
    then show ?thesis using assms(3) KEY_PAGEDOWN
      by (auto simp add: handle_vc_key_def view_range_def refresh_vc_def emit_def)
  next
    case (KEY_OTHER n)
    then show ?thesis using assms(1,3)
      by (auto simp add: handle_vc_key_def view_range_def refresh_vc_def emit_def)
  qed (use assms(4,5) in simp_all)
qed

lemma keyboard_notifier_call_view_range:
  assumes "view_range st" "vc_small (kp_vc param)"
    and "keyboard_notifier_call code param st = Some (r, st')"
  shows "view_range st'"
proof (cases "kp_down param = 0")
  case True
  then show ?thesis using assms(1,3) by (simp add: keyboard_notifier_call_def)
next
  case down: False
  let ?vc = "kp_vc param"
  have C: "uint (vc_cols ?vc) < 2 ^ 31" "uint (vc_rows ?vc) < 2 ^ 31"
    using assms(2) by (simp_all add: vc_small_def)
  have v: "- int WIDTH \<le> sint (vc_view_x st)" "- 1 \<le> sint (vc_view_y st)"
    using assms(1) by (simp_all add: view_range_def)
  show ?thesis
  proof (cases code)
    case KBD_KEYCODE
    show ?thesis
    proof (cases "console_show st \<noteq> 0")
      case True
      then show ?thesis
        using assms(1,3) KBD_KEYCODE down view_range_follow [OF assms(2), of ?vc]
        by (auto simp add: keyboard_notifier_call_def handle_console_key_def Let_def
            split: if_splits)
    next
      case False
      then have show0: "console_show st = 0" by simp
      consider (left) "kp_value param = KEY_LEFT" | (right) "kp_value param = KEY_RIGHT"
        | (other) "kp_value param \<noteq> KEY_LEFT" "kp_value param \<noteq> KEY_RIGHT"
        by blast
      then show ?thesis
      proof cases
        case left
        obtain x' y' where "keyboard_notifier_call KBD_KEYCODE param st
            = Some (NOTIFY_STOP, st\<lparr>vc_view_x := x', vc_view_y := y',
                trace := trace st
                    @ (if 0 < sint (vc_view_x st) then []
                       else if 1 \<le> sint (vc_view_y st)
                         then (if sound st then [Mksound BEEP_HIGH] else [])
                       else (if sound st then [Mksound BEEP_LOW] else []))
                    @ [Maybe_cursor_moved (vc_num ?vc), Vc_refresh (vc_num ?vc)]\<rparr>)"
            "sint x' = (if 0 < sint (vc_view_x st) then max 0 (sint (vc_view_x st) - int WIDTH)
                      else if 1 \<le> sint (vc_view_y st) then uint (vc_cols ?vc) - int WIDTH
                      else sint (vc_view_x st))"
            "sint y' = (if 0 < sint (vc_view_x st) then sint (vc_view_y st)
                      else if 1 \<le> sint (vc_view_y st) then sint (vc_view_y st) - 1
                      else sint (vc_view_y st))"
          using pan_left [OF show0 down refl left refl refl refl C(1)] by blast
        moreover have "0 \<le> uint (vc_cols ?vc)" by simp
        ultimately show ?thesis using assms(3) KBD_KEYCODE v
          by (auto simp add: view_range_def split: if_splits)
      next
        case right
        obtain x' y' where "keyboard_notifier_call KBD_KEYCODE param st
            = Some (NOTIFY_STOP, st\<lparr>vc_view_x := x', vc_view_y := y',
                trace := trace st
                    @ (if sint (vc_view_x st) + int WIDTH < uint (vc_cols ?vc) then []
                       else if sint (vc_view_y st) + 1 < uint (vc_rows ?vc)
                         then (if sound st then [Mksound BEEP_HIGH] else [])
                       else (if sound st then [Mksound BEEP_LOW] else []))
                    @ [Maybe_cursor_moved (vc_num ?vc), Vc_refresh (vc_num ?vc)]\<rparr>)"
            "sint x' = (if sint (vc_view_x st) + int WIDTH < uint (vc_cols ?vc)
                        then sint (vc_view_x st) + int WIDTH
                      else if sint (vc_view_y st) + 1 < uint (vc_rows ?vc) then 0
                      else sint (vc_view_x st))"
            "sint y' = (if sint (vc_view_x st) + int WIDTH < uint (vc_cols ?vc)
                        then sint (vc_view_y st)
                      else if sint (vc_view_y st) + 1 < uint (vc_rows ?vc)
                        then sint (vc_view_y st) + 1
                      else sint (vc_view_y st))"
          using pan_right [OF show0 down refl right refl refl refl refl v C] by blast
        then show ?thesis using assms(3) KBD_KEYCODE v
          by (auto simp add: view_range_def split: if_splits)
      next
        case other
        then show ?thesis
          using assms(3) KBD_KEYCODE down show0
            handle_vc_key_view_range [OF assms(1,2), of param r st']
          by (simp add: keyboard_notifier_call_def)
      qed
    qed
  next
    case KBD_POST_KEYSYM
    then show ?thesis using assms(1,3) down
      by (auto simp add: keyboard_notifier_call_def Let_def view_range_def beep_def emit_def
          split: if_splits)
  qed (use assms(1,3) down in \<open>auto simp add: keyboard_notifier_call_def\<close>)
qed

lemma step_view_range:
  assumes "view_range st" "vc_small (event_vc e)" "step e st = Some st'"
  shows "view_range st'"
proof (cases e)
  case (Keyboard code param)
  then show ?thesis
    using assms keyboard_notifier_call_view_range [of st param code]
    by (auto simp add: step_def)
next
  case (Vt fg code param)
  then show ?thesis
    using assms(1,3) vt_notifier_call_view [of fg code param st]
    by (auto simp add: step_def view_range_def)
qed

lemma run_view_range:
  assumes "view_range st" "\<forall>e\<in>set evs. vc_small (event_vc e)" "run evs st = Some st'"
  shows "view_range st'"
  using assms
proof (induction evs arbitrary: st)
  case Nil
  then show ?case by simp
next
  case (Cons e evs)
  then obtain st1 where 1: "step e st = Some st1" "run evs st1 = Some st'"
    by (auto split: option.splits)
  have "view_range st1" using step_view_range [OF Cons.prems(1) _ 1(1)] Cons.prems(2) by simp
  then show ?case using Cons.IH [OF _ _ 1(2)] Cons.prems(2) by simp
qed

end
